theory Spec2Isabelle
  imports Complex_Main "HOL-Library.Sublist"
begin

section \<open>Python strings\<close>

text \<open>
  A Python \<^verbatim>\<open>str\<close> is a sequence of code points. It is modelled as a \<^typ>\<open>string\<close>
  whose characters are the code points U+0000 to U+00FF, so that slicing, \<^verbatim>\<open>strip\<close> and
  \<^verbatim>\<open>startswith\<close> count what Python counts; texts with code points above U+00FF are outside
  the model. \<^verbatim>\<open>s.startswith(p)\<close> is \<^term>\<open>prefix p s\<close>, \<^verbatim>\<open>s.endswith(p)\<close> is \<^term>\<open>suffix p s\<close>,
  \<^verbatim>\<open>p in s\<close> is \<^term>\<open>sublist p s\<close> and \<^verbatim>\<open>s[:n]\<close> is \<^term>\<open>take n s\<close>.
\<close>

text \<open>
  \<^verbatim>\<open>s.replace(old, new)\<close>: scanning from the left, every occurrence of \<^verbatim>\<open>old\<close> found is
  replaced and the scan goes on behind it; the text put in is not scanned again. For an
  empty \<^verbatim>\<open>old\<close> Python puts \<^verbatim>\<open>new\<close> before every character and at the end.
\<close>

function str_replace :: "string \<Rightarrow> string \<Rightarrow> string \<Rightarrow> string" where
  "str_replace old new [] = (if old = [] then new else [])"
| "str_replace old new (c # cs) =
     (if old = [] then new @ c # str_replace old new cs
      else if prefix old (c # cs) then new @ str_replace old new (drop (length old) (c # cs))
      else c # str_replace old new cs)"
  by pat_completeness auto
termination
  by (relation "measure (\<lambda>(old, new, s). length s)") auto

text \<open>\<^verbatim>\<open>f"{i}"\<close> for a natural number: its decimal digits.\<close>

definition digit :: "nat \<Rightarrow> char" where
  "digit d = ''0123456789'' ! d"

function str_nat :: "nat \<Rightarrow> string" where
  "str_nat n = (if n < 10 then [digit n] else str_nat (n div 10) @ [digit (n mod 10)])"
  by pat_completeness auto
termination
  by (relation "measure (\<lambda>n. n)") auto

declare str_nat.simps [simp del]

text \<open>\<^verbatim>\<open>d.get(key, [])\<close> on a dictionary of lists.\<close>

definition dict_get :: "(string \<rightharpoonup> 'a list) \<Rightarrow> string \<Rightarrow> 'a list" where
  "dict_get d k = (case d k of None \<Rightarrow> [] | Some v \<Rightarrow> v)"

text \<open>
  \<^verbatim>\<open>str.isspace\<close> on the code points below U+0100: tab, line feed, vertical tab, form feed,
  carriage return, the separators U+001C to U+001F, space, U+0085 and U+00A0.
\<close>

definition is_space :: "char \<Rightarrow> bool" where
  "is_space c \<longleftrightarrow> of_char c \<in> set [9, 10, 11, 12, 13, 28, 29, 30, 31, 32, 133, 160 :: nat]"

definition strip :: "string \<Rightarrow> string" where
  "strip s = rev (dropWhile is_space (rev (dropWhile is_space s)))"

text \<open>\<^verbatim>\<open>s.split(c)\<close> for a separator of one character: the pieces between the separators.\<close>

fun split_char :: "char \<Rightarrow> string \<Rightarrow> string list" where
  "split_char c [] = [[]]"
| "split_char c (x # xs) =
     (if x = c then [] # split_char c xs
      else (case split_char c xs of [] \<Rightarrow> [[x]] | y # ys \<Rightarrow> (x # y) # ys))"

text \<open>\<^verbatim>\<open>s.split(":", 1)[1]\<close> for an \<open>s\<close> that contains a colon: what is behind the first one.\<close>

definition after_first_colon :: "string \<Rightarrow> string" where
  "after_first_colon s = tl (dropWhile (\<lambda>c. c \<noteq> CHR '':'') s)"

text \<open>
  \<^verbatim>\<open>str.lower\<close> on the code points below U+0100: the letters A to Z and the capital letters
  U+00C0 to U+00DE, the sign U+00D7 apart, move up by 32.
\<close>

definition lower_char :: "char \<Rightarrow> char" where
  "lower_char c =
     (let n = of_char c :: nat in
      if (65 \<le> n \<and> n \<le> 90) \<or> (192 \<le> n \<and> n \<le> 222 \<and> n \<noteq> 215) then char_of (n + 32) else c)"

definition lower :: "string \<Rightarrow> string" where
  "lower s = map lower_char s"

fun str_join :: "string \<Rightarrow> string list \<Rightarrow> string" where
  "str_join sep [] = []"
| "str_join sep [x] = x"
| "str_join sep (x # y # ys) = x @ sep @ str_join sep (y # ys)"

text \<open>
  \<^verbatim>\<open>re.findall\<close> for a pattern \<^verbatim>\<open>opn(.*?)cls\<close> of two literals around a lazy group, with
  \<^verbatim>\<open>re.DOTALL\<close>: at the first position where \<open>opn\<close> stands and some \<open>cls\<close> follows, the
  group is the text up to the first such \<open>cls\<close>, and the search goes on behind it.
  \<open>split_at pat s\<close> cuts \<open>s\<close> at the first occurrence of \<open>pat\<close>. Both literals of the source
  are non-empty; for an empty \<open>opn\<close> the model finds nothing.
\<close>

fun split_at :: "string \<Rightarrow> string \<Rightarrow> (string \<times> string) option" where
  "split_at pat [] = (if pat = [] then Some ([], []) else None)"
| "split_at pat (c # cs) =
     (if prefix pat (c # cs) then Some ([], drop (length pat) (c # cs))
      else (case split_at pat cs of None \<Rightarrow> None | Some (a, b) \<Rightarrow> Some (c # a, b)))"

lemma split_at_length: "split_at pat s = Some (a, b) \<Longrightarrow> length b \<le> length s"
  by (induction s arbitrary: a) (auto split: if_splits option.splits)

function findall :: "string \<Rightarrow> string \<Rightarrow> string \<Rightarrow> string list" where
  "findall opn cls [] = []"
| "findall opn cls (c # cs) =
     (if opn \<noteq> [] \<and> prefix opn (c # cs) then
        (case split_at cls (drop (length opn) (c # cs)) of
           Some (cap, rest) \<Rightarrow> cap # findall opn cls rest
         | None \<Rightarrow> findall opn cls cs)
      else findall opn cls cs)"
  by pat_completeness auto
termination
  apply (relation "measure (\<lambda>(opn, cls, s). length s)")
  apply simp_all
  apply (auto dest!: split_at_length)
  subgoal for opn c cs rest by (cases opn) auto
  done

section \<open>Citation-marker substitution (orchestrator.py)\<close>

text \<open>
  \<^verbatim>\<open>_replace_reference_tags\<close> runs the same loop twice, over
  \<^verbatim>\<open>enumerate(references.get("RAG", []), 1)\<close> with the tags \<^verbatim>\<open><RAG id=i>\<close> and \<^verbatim>\<open></RAG>\<close>, then
  over \<^verbatim>\<open>enumerate(references.get("InternetSearch", []), 1)\<close> with \<^verbatim>\<open><Internet id=i>\<close> and
  \<^verbatim>\<open></Internet>\<close>. \<open>replace_tags kind i refs text\<close> is one such loop, started at number \<open>i\<close>:
  each round replaces the opening tag of its number by the bracketed reference and then
  removes every closing tag.
\<close>

definition opening_tag :: "string \<Rightarrow> nat \<Rightarrow> string" where
  "opening_tag kind i = ''<'' @ kind @ '' id='' @ str_nat i @ ''>''"

definition closing_tag :: "string \<Rightarrow> string" where
  "closing_tag kind = ''</'' @ kind @ ''>''"

fun replace_tags :: "string \<Rightarrow> nat \<Rightarrow> string list \<Rightarrow> string \<Rightarrow> string" where
  "replace_tags kind i [] text = text"
| "replace_tags kind i (ref # refs) text =
     replace_tags kind (Suc i) refs
       (str_replace (closing_tag kind) []
          (str_replace (opening_tag kind i) (''['' @ ref @ '']'') text))"

definition replace_reference_tags :: "string \<Rightarrow> (string \<rightharpoonup> string list) \<Rightarrow> string" where
  "replace_reference_tags text refs =
     replace_tags ''Internet'' 1 (dict_get refs ''InternetSearch'')
       (replace_tags ''RAG'' 1 (dict_get refs ''RAG'') text)"

text \<open>
  Two texts are \<open>apart\<close> when no occurrence of the first can overlap an occurrence of the
  second: neither starts inside the other and neither starts the other.
\<close>

definition apart :: "string \<Rightarrow> string \<Rightarrow> bool" where
  "apart old s \<longleftrightarrow>
     old \<noteq> [] \<and> s \<noteq> [] \<and> hd old \<notin> set (tl s) \<and> hd s \<notin> set (tl old) \<and>
     \<not> prefix old s \<and> \<not> prefix s old"

text \<open>
  A text is \<open>well_tagged\<close> when its angle brackets are not nested: behind every \<^verbatim>\<open><\<close> comes
  a \<^verbatim>\<open>>\<close> before the next \<^verbatim>\<open><\<close>. A \<^verbatim>\<open>>\<close> outside a tag is allowed. \<open>is_tag s\<close> says that
  \<open>s\<close> is one tag: \<^verbatim>\<open><\<close>, a body free of angle brackets, \<^verbatim>\<open>>\<close>.
\<close>

fun tags_closed :: "bool \<Rightarrow> string \<Rightarrow> bool" where
  "tags_closed inside [] = (\<not> inside)"
| "tags_closed inside (c # cs) =
     (if c = CHR ''<'' then \<not> inside \<and> tags_closed True cs
      else if c = CHR ''>'' then tags_closed False cs
      else tags_closed inside cs)"

definition well_tagged :: "string \<Rightarrow> bool" where
  "well_tagged t = tags_closed False t"

definition is_tag :: "string \<Rightarrow> bool" where
  "is_tag s = (case s of [] \<Rightarrow> False
     | c # r \<Rightarrow> c = CHR ''<'' \<and> r \<noteq> [] \<and> last r = CHR ''>'' \<and>
         CHR ''<'' \<notin> set (butlast r) \<and> CHR ''>'' \<notin> set (butlast r))"

section \<open>Data model (models/schemas.py)\<close>

text \<open>
  The pydantic models as records. Field names are the source's, except where two models
  share one: \<^verbatim>\<open>content\<close> is \<open>ref_content\<close>, \<open>rag_content\<close> and \<open>web_content\<close>,
  \<^verbatim>\<open>FinalAnswer.references\<close> is \<open>answer_references\<close>, \<^verbatim>\<open>QueryRequest.query\<close> is \<open>request_query\<close>
  and \<^verbatim>\<open>SystemResponse.rewritten_query\<close> is \<open>rewritten_query_result\<close>. The two confidences
  are floats that the code only ever sets to 0.0. \<^verbatim>\<open>intermediate_reasoning\<close> is always
  \<^verbatim>\<open>None\<close>, so the type of its value is left out.
\<close>

record ReferenceMaterial =
  number :: "string option"
  source :: string
  ref_content :: string
  is_authentic_source :: bool

record RAGResult =
  rag_content :: string
  references :: "ReferenceMaterial list"
  sources_used :: "string list"
  confidence_score :: real

record WebSearchResult =
  web_content :: string
  results :: "(string \<rightharpoonup> string) list"
  search_query :: string

record QueryRequest =
  request_query :: string
  language :: "string option"
  include_references :: bool

record RewrittenQuery =
  original_query :: string
  rewritten_query :: string
  improvements :: "string list"

record FinalAnswer =
  answer :: string
  confidence :: real
  methodology :: string
  answer_references :: "string \<rightharpoonup> string list"

record SystemResponse =
  final_answer :: FinalAnswer
  raw_rag_output :: "RAGResult option"
  raw_web_output :: "WebSearchResult option"
  intermediate_reasoning :: "unit option"
  rewritten_query_result :: "RewrittenQuery option"
  processing_time :: real

text \<open>
  A planned invocation is the dictionary \<^verbatim>\<open>{'tool': ..., 'query': ...}\<close>; an executed one has
  the key \<^verbatim>\<open>'result'\<close> as well, holding a \<^verbatim>\<open>RAGResult\<close> or a \<^verbatim>\<open>WebSearchResult\<close>.
\<close>

record invocation =
  tool :: string
  query :: string

datatype tool_output = RAGOutput RAGResult | WebOutput WebSearchResult

record tool_result = invocation +
  result :: tool_output

section \<open>The backends\<close>

text \<open>
  A call of a backend raises, with the text \<^verbatim>\<open>str(e)\<close> of its exception, or returns. The
  chat methods \<^verbatim>\<open>simple_chat\<close> (on a list of role and content) and \<^verbatim>\<open>thinking_chat\<close> (on the
  user input and \<^verbatim>\<open>max_tokens\<close>) return the \<^verbatim>\<open>content\<close> of the reply, which may be \<^verbatim>\<open>None\<close>.
  \<open>tavily_available\<close> is \<^verbatim>\<open>TavilyService.is_available()\<close>. The three prompt templates have
  one slot for each argument, so \<^verbatim>\<open>format\<close> cannot raise; their fixed wording plays no role
  and they are taken as functions of their arguments. \<open>validation_error\<close> is the text of the
  error that pydantic raises when a \<^verbatim>\<open>FinalAnswer\<close> is built with the answer \<^verbatim>\<open>None\<close>.
\<close>

datatype 'a outcome = Raises string | Returns 'a

record backends =
  simple_chat :: "(string \<times> string) list \<Rightarrow> string option outcome"
  thinking_chat :: "string \<Rightarrow> nat option \<Rightarrow> string option outcome"
  islamic_rag :: "string \<Rightarrow> RAGResult outcome"
  tavily_available :: bool
  tavily_search :: "string \<Rightarrow> WebSearchResult outcome"
  QUERY_REWRITER_PROMPT :: "string \<Rightarrow> string"
  TOOL_USAGE_PROMPT :: "string \<Rightarrow> string"
  FINAL_SYNTHESIS_PROMPT :: "string \<Rightarrow> string \<Rightarrow> string"
  validation_error :: string

section \<open>Query rewriter (agents/query_rewriter.py)\<close>

datatype parse_section = NoSection | QuerySection | ImprovementsSection

text \<open>
  \<open>parse_line\<close> is one round of the loop over the lines of \<^verbatim>\<open>_parse_response\<close>, on its three
  local variables \<^verbatim>\<open>rewritten_query\<close>, \<^verbatim>\<open>improvements\<close> and \<^verbatim>\<open>current_section\<close>. In the
  improvements section the source also takes a line that starts with the three code points
  U+00E2 U+20AC U+00A2 (a bullet read in the wrong encoding) as a bullet line; no line of
  the model starts with them, since U+20AC is above U+00FF.
\<close>

type_synonym parse_state = "string \<times> string list \<times> parse_section"

definition parse_line :: "string \<Rightarrow> parse_state \<Rightarrow> parse_state" where
  "parse_line raw st =
     (case st of (rewritten, improved, current_section) \<Rightarrow>
      let line = strip raw in
      if line = [] then st
      else if prefix ''1. Rewritten Query:'' line \<or> sublist ''Rewritten Query:'' line then
        (if CHR '':'' \<in> set line then
           (let query_part = strip (after_first_colon line) in
            if query_part \<noteq> [] \<and> \<not> prefix ''['' query_part
            then (query_part, improved, QuerySection)
            else (rewritten, improved, QuerySection))
         else (rewritten, improved, QuerySection))
      else if prefix ''2. Improvements Made:'' line \<or> sublist ''Improvements Made:'' line then
        (rewritten, improved, ImprovementsSection)
      else if current_section = QuerySection then
        (if \<not> prefix ''['' line \<and> \<not> prefix ''2.'' line
         then (line, improved, current_section) else st)
      else if current_section = ImprovementsSection then
        (if prefix ''-'' line \<or> prefix ''*'' line
         then (rewritten, improved @ [strip (tl line)], current_section)
         else if \<not> prefix ''['' line
         then (rewritten, improved @ [line], current_section)
         else st)
      else st)"

definition parse_response :: "string option \<Rightarrow> string \<Rightarrow> string \<times> string list" where
  "parse_response response original =
     (case response of
        None \<Rightarrow> (original, [''Error in parsing (using original query)''])
      | Some text \<Rightarrow>
          (case fold parse_line (split_char CHR ''\<newline>'' (strip text)) (original, [], NoSection) of
             (rewritten, improved, current_section) \<Rightarrow>
               (let rewritten = strip rewritten;
                    rewritten =
                      (if prefix ''['' rewritten \<and> suffix '']'' rewritten
                       then original else rewritten);
                    improved =
                      (if improved = [] then [''Query processed for Islamic context'']
                       else improved)
                in (rewritten, improved))))"

definition islamic_terms :: "string list" where
  "islamic_terms = [''islam'', ''islamic'', ''quran'', ''hadith'', ''prophet'', ''allah'', ''muhammad'']"

definition simple_enhance_query :: "string \<Rightarrow> string" where
  "simple_enhance_query q =
     (let query_lower = lower q;
          has_islamic_context = list_ex (\<lambda>term. sublist term query_lower) islamic_terms
      in if \<not> has_islamic_context
         then q @ '' in Islamic perspective according to Quran and Sunnah''
         else q)"

definition rewrite_query :: "backends \<Rightarrow> string \<Rightarrow> RewrittenQuery" where
  "rewrite_query w original =
     (case simple_chat w [(''user'', QUERY_REWRITER_PROMPT w original)] of
        Returns response \<Rightarrow>
          (case parse_response response original of
             (rewritten, improved) \<Rightarrow>
               \<lparr>original_query = original, rewritten_query = rewritten,
                improvements = improved\<rparr>)
      | Raises e \<Rightarrow>
          \<lparr>original_query = original, rewritten_query = simple_enhance_query original,
           improvements = [''Added basic Islamic context (fallback)'']\<rparr>)"

section \<open>Tool usage agent (agents/tool_usage_agent.py)\<close>

text \<open>
  \<^verbatim>\<open>_parse_tool_invocations\<close>: two passes of \<^verbatim>\<open>re.findall\<close>, each appending its matches to
  the one list \<^verbatim>\<open>invocations\<close>. The argument is the chat reply; on \<^verbatim>\<open>None\<close> the first
  \<^verbatim>\<open>re.findall\<close> raises and the handler returns the empty list.
\<close>

definition parse_tool_invocations :: "string option \<Rightarrow> invocation list" where
  "parse_tool_invocations response =
     (case response of
        None \<Rightarrow> []
      | Some text \<Rightarrow>
          (let invocations = [];
               rag_matches = findall ''<RAG><query>'' ''</query></RAG>'' text;
               invocations =
                 fold (\<lambda>match acc. acc @ [\<lparr>tool = ''RAG'', query = strip match\<rparr>])
                   rag_matches invocations;
               search_matches =
                 findall ''<InternetSearch><search_query>'' ''</search_query></InternetSearch>'' text;
               invocations =
                 fold (\<lambda>match acc. acc @ [\<lparr>tool = ''InternetSearch'', query = strip match\<rparr>])
                   search_matches invocations
           in invocations))"

definition get_tool_invocations :: "backends \<Rightarrow> string \<Rightarrow> bool \<Rightarrow> invocation list" where
  "get_tool_invocations w q thinking_mode =
     (let prompt = TOOL_USAGE_PROMPT w q in
      case (if thinking_mode then thinking_chat w prompt None
            else simple_chat w [(''user'', prompt)]) of
        Returns response \<Rightarrow> parse_tool_invocations response
      | Raises e \<Rightarrow> [])"

definition execute_rag :: "backends \<Rightarrow> string \<Rightarrow> RAGResult option" where
  "execute_rag w q = (case islamic_rag w q of Returns r \<Rightarrow> Some r | Raises e \<Rightarrow> None)"

definition execute_web_search :: "backends \<Rightarrow> string \<Rightarrow> WebSearchResult option" where
  "execute_web_search w q =
     (if \<not> tavily_available w then None
      else (case tavily_search w q of Returns r \<Rightarrow> Some r | Raises e \<Rightarrow> None))"

text \<open>
  The dictionary that \<^verbatim>\<open>process_query\<close> of the agent returns. The key \<^verbatim>\<open>'error'\<close> is present
  only in the result of \<^verbatim>\<open>_create_error_result\<close>.
\<close>

record agent_result =
  success :: bool
  error :: "string option"
  tool_invocations :: "invocation list"
  tool_results :: "tool_result list"
  rag_result :: "RAGResult option"
  web_result :: "WebSearchResult option"
  thinking_mode :: bool

definition create_error_result :: "bool \<Rightarrow> string \<Rightarrow> agent_result" where
  "create_error_result self_mode e =
     \<lparr>success = False, error = Some e, tool_invocations = [], tool_results = [],
      rag_result = None, web_result = None, thinking_mode = self_mode\<rparr>"

text \<open>
  The loop over the planned invocations, with its three local variables: the last RAG
  result, the last web result and the list of executed tools.
\<close>

fun execute_invocations ::
  "backends \<Rightarrow> invocation list \<Rightarrow> RAGResult option \<times> WebSearchResult option \<times> tool_result list
   \<Rightarrow> RAGResult option \<times> WebSearchResult option \<times> tool_result list" where
  "execute_invocations w [] st = st"
| "execute_invocations w (planned # rest) (rag, web, executed) =
     (if tool planned = ''RAG'' then
        (let rag = execute_rag w (query planned) in
         execute_invocations w rest
           (rag, web,
            (case rag of None \<Rightarrow> executed
             | Some r \<Rightarrow> executed @ [\<lparr>tool = ''RAG'', query = query planned, result = RAGOutput r\<rparr>])))
      else if tool planned = ''InternetSearch'' then
        (let web = execute_web_search w (query planned) in
         execute_invocations w rest
           (rag, web,
            (case web of None \<Rightarrow> executed
             | Some r \<Rightarrow> executed @ [\<lparr>tool = ''InternetSearch'', query = query planned, result = WebOutput r\<rparr>])))
      else execute_invocations w rest (rag, web, executed))"

definition agent_process_query :: "backends \<Rightarrow> bool \<Rightarrow> string \<Rightarrow> bool option \<Rightarrow> agent_result" where
  "agent_process_query w self_mode q use_thinking_mode =
     (let mode = (case use_thinking_mode of Some m \<Rightarrow> m | None \<Rightarrow> self_mode);
          invocations = get_tool_invocations w q mode
      in if invocations = [] then create_error_result self_mode ''No tool invocations generated''
         else (case execute_invocations w invocations (None, None, []) of
                 (rag, web, executed) \<Rightarrow>
                   \<lparr>success = True, error = None, tool_invocations = invocations,
                    tool_results = executed, rag_result = rag, web_result = web,
                    thinking_mode = mode\<rparr>))"

section \<open>Synthesis agent (agents/synthesis_agent.py)\<close>

definition get_str :: "(string \<rightharpoonup> string) \<Rightarrow> string \<Rightarrow> string \<Rightarrow> string" where
  "get_str d k dflt = (case d k of None \<Rightarrow> dflt | Some v \<Rightarrow> v)"

text \<open>
  The two inner iterations of \<^verbatim>\<open>_prepare_synthesis_input_from_tool_results\<close>, over
  \<^verbatim>\<open>enumerate(result.references, 1)\<close> and \<^verbatim>\<open>enumerate(result.results, 1)\<close>: the first argument
  is the running number.
\<close>

fun rag_reference_lines :: "nat \<Rightarrow> ReferenceMaterial list \<Rightarrow> string list" where
  "rag_reference_lines i [] = []"
| "rag_reference_lines i (ref # refs) =
     (''<RAG id='' @ str_nat i @ ''>'' @ source ref @ '': '' @ take 100 (ref_content ref) @ ''...</RAG>'')
     # rag_reference_lines (Suc i) refs"

fun web_result_lines :: "nat \<Rightarrow> (string \<rightharpoonup> string) list \<Rightarrow> string list" where
  "web_result_lines i [] = []"
| "web_result_lines i (r # rest) =
     (''<Internet id='' @ str_nat i @ ''>'' @ get_str r ''title'' ''Unknown'' @ '' ('' @
        get_str r ''url'' [] @ ''): '' @ take 100 (get_str r ''content'' []) @ ''...</Internet>'')
     # web_result_lines (Suc i) rest"

text \<open>One round of the outer loop, on \<^verbatim>\<open>synthesis_parts\<close> and \<^verbatim>\<open>sources\<close>.\<close>

definition add_tool_result ::
  "tool_result \<Rightarrow> string list \<times> (string \<rightharpoonup> string list) \<Rightarrow> string list \<times> (string \<rightharpoonup> string list)" where
  "add_tool_result result_data st =
     (case st of (synthesis_parts, sources) \<Rightarrow>
      (case result result_data of
         RAGOutput r \<Rightarrow>
           if tool result_data = ''RAG'' then
             (synthesis_parts @
                [''\<newline>## Islamic Sources Information\<newline>**Query Used:** '' @ query result_data @
                 ''\<newline>**Content:** '' @ rag_content r @ ''\<newline>''] @
                (if references r \<noteq> []
                 then [''**Detailed References and Sources:**''] @
                      rag_reference_lines 1 (references r) @ [[]]
                 else []),
              sources(''RAG'' \<mapsto> dict_get sources ''RAG'' @ sources_used r))
           else st
       | WebOutput r \<Rightarrow>
           if tool result_data = ''InternetSearch'' then
             (synthesis_parts @
                [''\<newline>## Contemporary (Internet Search) Information\<newline>**Search Query:** '' @
                 query result_data @ ''\<newline>**Direct Search Answer:** '' @ web_content r @ ''\<newline>''] @
                (if results r \<noteq> []
                 then [''**Web Search Results:**''] @ web_result_lines 1 (results r) @ [[]]
                 else []),
              sources(''InternetSearch'' \<mapsto>
                dict_get sources ''InternetSearch'' @ map (\<lambda>d. get_str d ''url'' []) (results r)))
           else st))"

definition prepare_synthesis_input_from_tool_results ::
  "string \<Rightarrow> tool_result list \<Rightarrow> string \<times> (string \<rightharpoonup> string list)" where
  "prepare_synthesis_input_from_tool_results q batch =
     (case fold add_tool_result batch ([], [''RAG'' \<mapsto> [], ''InternetSearch'' \<mapsto> []]) of
        (synthesis_parts, sources) \<Rightarrow> (str_join ''\<newline>'' synthesis_parts, sources))"

definition create_fallback_answer :: "string \<Rightarrow> string \<Rightarrow> FinalAnswer" where
  "create_fallback_answer q e =
     \<lparr>answer = ''I apologize, but I encountered an error while processing your query: '' @ e,
      confidence = 0, methodology = ''Error fallback'',
      answer_references = [''RAG'' \<mapsto> [], ''InternetSearch'' \<mapsto> []]\<rparr>"

definition synthesize_answer ::
  "backends \<Rightarrow> bool \<Rightarrow> string \<Rightarrow> tool_result list \<Rightarrow> bool option \<Rightarrow> FinalAnswer" where
  "synthesize_answer w self_mode original batch use_thinking_mode =
     (let mode = (case use_thinking_mode of Some m \<Rightarrow> m | None \<Rightarrow> self_mode) in
      case prepare_synthesis_input_from_tool_results original batch of
        (content, data_sources) \<Rightarrow>
          (case (if mode then thinking_chat w (FINAL_SYNTHESIS_PROMPT w original content) (Some 2000)
                 else simple_chat w [(''user'', FINAL_SYNTHESIS_PROMPT w original content)]) of
             Returns (Some response) \<Rightarrow>
               \<lparr>answer = response, confidence = 0, methodology = [],
                answer_references = data_sources\<rparr>
           | Returns None \<Rightarrow> create_fallback_answer original (validation_error w)
           | Raises e \<Rightarrow> create_fallback_answer original e))"

section \<open>Orchestrator (orchestrator.py)\<close>

text \<open>
  \<^verbatim>\<open>process_query\<close> of the orchestrator. \<open>start_time\<close> and \<open>end_time\<close> are the two readings of
  \<^verbatim>\<open>time.time()\<close>: at entry, and behind the synthesis step or in the handler. \<open>self_mode\<close> is
  the default \<^verbatim>\<open>use_thinking_mode\<close> of the two agents, which the orchestrator sets to the same
  value. \<open>process_query_steps\<close> is the body of the \<^verbatim>\<open>try\<close>; every callee catches what its
  backend raises, so the body returns on every path and the handler of \<open>process_query\<close> is
  never entered.
\<close>

definition process_query_steps ::
  "backends \<Rightarrow> bool \<Rightarrow> QueryRequest \<Rightarrow> bool option \<Rightarrow> real \<Rightarrow> real \<Rightarrow> SystemResponse outcome" where
  "process_query_steps w self_mode request use_thinking_mode start_time end_time =
     (let rewritten = rewrite_query w (request_query request);
          agent = agent_process_query w self_mode (rewritten_query rewritten) use_thinking_mode;
          final =
            (if success agent
             then synthesize_answer w self_mode (request_query request) (tool_results agent)
                    use_thinking_mode
             else create_fallback_answer (request_query request)
                    (case error agent of Some e \<Rightarrow> e | None \<Rightarrow> ''Unknown error''));
          elapsed = end_time - start_time;
          final = final\<lparr>answer := replace_reference_tags (answer final) (answer_references final)\<rparr>
      in Returns
           \<lparr>final_answer = final, raw_rag_output = rag_result agent,
            raw_web_output = web_result agent, intermediate_reasoning = None,
            rewritten_query_result = Some rewritten, processing_time = elapsed\<rparr>)"

definition process_query ::
  "backends \<Rightarrow> bool \<Rightarrow> QueryRequest \<Rightarrow> bool option \<Rightarrow> real \<Rightarrow> real \<Rightarrow> SystemResponse" where
  "process_query w self_mode request use_thinking_mode start_time end_time =
     (case process_query_steps w self_mode request use_thinking_mode start_time end_time of
        Returns response \<Rightarrow> response
      | Raises e \<Rightarrow>
          \<lparr>final_answer = create_fallback_answer (request_query request) e,
           raw_rag_output = None, raw_web_output = None, intermediate_reasoning = None,
           rewritten_query_result = None, processing_time = end_time - start_time\<rparr>)"

section \<open>Test doubles and example inputs\<close>

text \<open>
  A backend whose two chat methods give the same outcome on every call, and whose retrieval
  and search backends are down. The prompt templates are reduced to their slots.
\<close>

definition scripted_backends :: "string option outcome \<Rightarrow> backends" where
  "scripted_backends reply =
     \<lparr>simple_chat = (\<lambda>messages. reply), thinking_chat = (\<lambda>user_input max_tokens. reply),
      islamic_rag = (\<lambda>q. Raises ''unavailable''), tavily_available = False,
      tavily_search = (\<lambda>q. Raises ''unavailable''),
      QUERY_REWRITER_PROMPT = (\<lambda>q. q), TOOL_USAGE_PROMPT = (\<lambda>q. q),
      FINAL_SYNTHESIS_PROMPT = (\<lambda>q sources. q @ sources),
      validation_error = ''validation error''\<rparr>"

definition example_request :: QueryRequest where
  "example_request =
     \<lparr>request_query = ''What breaks a fast?'', language = Some ''en'', include_references = True\<rparr>"

text \<open>
  \<^verbatim>\<open>islamic_rag\<close> builds its result from the reply of the retrieval service:
  \<^verbatim>\<open>sources_used = list(set([ref.source for ref in references]))\<close>, every \<^verbatim>\<open>number\<close> a string,
  every \<^verbatim>\<open>is_authentic_source\<close> set by \<^verbatim>\<open>_validate_islamic_source\<close>, and the score 0. The order
  in which Python lists a set is not fixed, so \<open>from_islamic_rag\<close> only says what every such
  result satisfies.
\<close>

definition authentic_sources :: "string list" where
  "authentic_sources =
     [''islamqa'', ''islamweb'', ''sunnah'', ''quran'', ''tafsir'', ''dorar'', ''shamela'',
      ''islamonline'', ''dar-alifta'', ''al-islam'', ''islamicity'', ''muslim'']"

definition validate_islamic_source :: "string \<Rightarrow> bool" where
  "validate_islamic_source s = list_ex (\<lambda>auth_source. sublist auth_source (lower s)) authentic_sources"

definition from_islamic_rag :: "RAGResult \<Rightarrow> bool" where
  "from_islamic_rag r \<longleftrightarrow>
     distinct (sources_used r) \<and> set (sources_used r) = set (map source (references r)) \<and>
     confidence_score r = 0 \<and>
     list_all (\<lambda>ref. number ref \<noteq> None \<and>
                 is_authentic_source ref = validate_islamic_source (source ref)) (references r)"

text \<open>
  Three batches of tool results: one retrieval whose two references name the same source,
  two retrievals with one reference each, and two searches with one result each.
\<close>

definition repeated_source_result :: RAGResult where
  "repeated_source_result =
     \<lparr>rag_content = ''X'',
      references =
        [\<lparr>number = Some ''1'', source = ''islamqa'', ref_content = ''A'', is_authentic_source = True\<rparr>,
         \<lparr>number = Some ''2'', source = ''islamqa'', ref_content = ''B'', is_authentic_source = True\<rparr>],
      sources_used = [''islamqa''], confidence_score = 0\<rparr>"

definition repeated_source_batch :: "tool_result list" where
  "repeated_source_batch = [\<lparr>tool = ''RAG'', query = ''fasting'', result = RAGOutput repeated_source_result\<rparr>]"

definition two_record_batch :: "tool_result list" where
  "two_record_batch =
     [\<lparr>tool = ''RAG'', query = ''fasting'', result = RAGOutput
        \<lparr>rag_content = ''X'',
         references = [\<lparr>number = Some ''1'', source = ''islamqa'', ref_content = ''A'', is_authentic_source = True\<rparr>],
         sources_used = [''islamqa''], confidence_score = 0\<rparr>\<rparr>,
      \<lparr>tool = ''RAG'', query = ''travel'', result = RAGOutput
        \<lparr>rag_content = ''Y'',
         references = [\<lparr>number = Some ''1'', source = ''sunnah'', ref_content = ''B'', is_authentic_source = True\<rparr>],
         sources_used = [''sunnah''], confidence_score = 0\<rparr>\<rparr>]"

definition two_search_batch :: "tool_result list" where
  "two_search_batch =
     [\<lparr>tool = ''InternetSearch'', query = ''fasting'', result = WebOutput
        \<lparr>web_content = ''X'',
         results = [[''title'' \<mapsto> ''T1'', ''url'' \<mapsto> ''u1'', ''content'' \<mapsto> ''A'']],
         search_query = ''fasting''\<rparr>\<rparr>,
      \<lparr>tool = ''InternetSearch'', query = ''travel'', result = WebOutput
        \<lparr>web_content = ''Y'',
         results = [[''title'' \<mapsto> ''T2'', ''url'' \<mapsto> ''u2'', ''content'' \<mapsto> ''B'']],
         search_query = ''travel''\<rparr>\<rparr>]"

text \<open>
  What the rewriter's loop can put into \<^verbatim>\<open>rewritten_query\<close>: a non-empty, trimmed line that
  does not start with a bracket.
\<close>

definition extracted :: "string \<Rightarrow> bool" where
  "extracted s \<longleftrightarrow> s \<noteq> [] \<and> strip s = s \<and> \<not> prefix ''['' s"

text \<open>
  Replies of the shape the planner's prompt asks for: a sequence of blocks, each a piece of
  prose, a RAG invocation or a search invocation. \<open>render\<close> writes the reply out and
  \<open>planned b kind\<close> is the invocation of that kind that the block \<open>b\<close> stands for.
\<close>

datatype planner_block = Prose string | RAGCall string | SearchCall string

fun render :: "planner_block list \<Rightarrow> string" where
  "render [] = []"
| "render (Prose s # bs) = s @ render bs"
| "render (RAGCall q # bs) = ''<RAG><query>'' @ q @ ''</query></RAG>'' @ render bs"
| "render (SearchCall q # bs) =
     ''<InternetSearch><search_query>'' @ q @ ''</search_query></InternetSearch>'' @ render bs"

fun no_tag_inside :: "planner_block \<Rightarrow> bool" where
  "no_tag_inside (Prose s) = (CHR ''<'' \<notin> set s)"
| "no_tag_inside (RAGCall q) = (CHR ''<'' \<notin> set q)"
| "no_tag_inside (SearchCall q) = (CHR ''<'' \<notin> set q)"

fun planned :: "planner_block \<Rightarrow> string \<Rightarrow> invocation list" where
  "planned (Prose s) kind = []"
| "planned (RAGCall q) kind = (if kind = ''RAG'' then [\<lparr>tool = ''RAG'', query = strip q\<rparr>] else [])"
| "planned (SearchCall q) kind =
     (if kind = ''InternetSearch'' then [\<lparr>tool = ''InternetSearch'', query = strip q\<rparr>] else [])"

section \<open>The captures of a pattern, read from left to right\<close>

text \<open>
  What \<^verbatim>\<open>re.findall\<close> means for a pattern \<open>opn(.*?)cls\<close> under \<^verbatim>\<open>re.DOTALL\<close>, stated without
  reference to the scanning function \<open>findall\<close>. A match of the pattern in \<open>s\<close> is a way to write
  \<open>s = pre @ opn @ cap @ cls @ rest\<close>. \<open>first_match\<close> selects the match that starts leftmost
  and, among those, has the shortest capture (the group is lazy). \<open>captures_in_order\<close> lists
  the captures in their order of appearance: the first match, then the captures of what
  follows it (matches do not overlap), until no match is left.
\<close>

definition first_match :: "string \<Rightarrow> string \<Rightarrow> string \<Rightarrow> string \<Rightarrow> string \<Rightarrow> string \<Rightarrow> bool" where
  "first_match opn cls s pre cap rest \<longleftrightarrow>
     s = pre @ opn @ cap @ cls @ rest \<and>
     (\<forall>pre' cap' rest'. s = pre' @ opn @ cap' @ cls @ rest' \<longrightarrow>
        length pre < length pre' \<or> (length pre' = length pre \<and> length cap \<le> length cap'))"

inductive captures_in_order :: "string \<Rightarrow> string \<Rightarrow> string \<Rightarrow> string list \<Rightarrow> bool"
  for opn cls :: string where
  nothing: "(\<forall>pre cap rest. s \<noteq> pre @ opn @ cap @ cls @ rest) \<Longrightarrow> captures_in_order opn cls s []"
| found: "first_match opn cls s pre cap rest \<Longrightarrow> captures_in_order opn cls rest caps \<Longrightarrow>
     captures_in_order opn cls s (cap # caps)"

section \<open>Properties of \<open>str_replace\<close>\<close>

lemma str_replace_skip:
  "old \<noteq> [] \<Longrightarrow> hd old \<notin> set s \<Longrightarrow> str_replace old new (s @ b) = s @ str_replace old new b"
proof (induction s)
  case Nil
  then show ?case by simp
next
  case (Cons c s)
  then have "\<not> prefix old (c # s @ b)"
    by (cases old) auto
  with Cons show ?case by simp
qed

lemma str_replace_at:
  "old \<noteq> [] \<Longrightarrow> str_replace old new (old @ r) = new @ str_replace old new r"
  by (cases old) auto

lemma str_replace_keep:
  assumes "apart old s"
  shows "str_replace old new (s @ b) = s @ str_replace old new b"
proof -
  from assms obtain x s' where s: "s = x # s'" and old: "old \<noteq> []"
    and h: "hd old \<notin> set s'" and np: "\<not> prefix old s" "\<not> prefix s old"
    by (cases s) (auto simp: apart_def)
  have "\<not> prefix old (s @ b)"
  proof
    assume "prefix old (s @ b)"
    moreover have "prefix s (s @ b)" by simp
    ultimately have "prefix old s \<or> prefix s old"
      using prefix_same_cases by blast
    with np show False by simp
  qed
  then have "str_replace old new (s @ b) = x # str_replace old new (s' @ b)"
    using old by (simp add: s)
  also have "\<dots> = x # s' @ str_replace old new b"
    using old h by (simp add: str_replace_skip)
  finally show ?thesis by (simp add: s)
qed

lemma prefix_before:
  assumes "apart old s" "a \<noteq> []" "prefix old (a @ s @ b)"
  shows "prefix old a"
proof -
  from assms(3) consider "prefix old a" | us where "old = a @ us" "prefix us (s @ b)"
    by (auto simp: prefix_append)
  then show ?thesis
  proof cases
    case 1 then show ?thesis .
  next
    case 2
    show ?thesis
    proof (cases us)
      case Nil
      with 2 show ?thesis by simp
    next
      case (Cons u us')
      from assms(1) obtain x s' where s: "s = x # s'" by (cases s) (auto simp: apart_def)
      from 2(2) Cons s have "u = x" by simp
      with 2(1) Cons assms(2) have "x \<in> set (tl old)" by (cases a) auto
      with assms(1) s show ?thesis by (simp add: apart_def)
    qed
  qed
qed

text \<open>
  A text that no occurrence of \<open>old\<close> can overlap cuts the scan in two: what is before it
  and what is behind it are replaced on their own, and the text itself stays.
\<close>

lemma str_replace_around:
  assumes "apart old s"
  shows "str_replace old new (a @ s @ b) = str_replace old new a @ s @ str_replace old new b"
proof (induction a rule: length_induct)
  case (1 a)
  from assms have old: "old \<noteq> []" by (simp add: apart_def)
  show ?case
  proof (cases a)
    case Nil
    with old assms show ?thesis by (simp add: str_replace_keep)
  next
    case (Cons c cs)
    show ?thesis
    proof (cases "prefix old (a @ s @ b)")
      case True
      with assms Cons have "prefix old a" by (intro prefix_before[of old s a b]) auto
      then obtain a' where a: "a = old @ a'" by (auto simp: prefix_def)
      with old have "length a' < length a" by simp
      with 1 have "str_replace old new (a' @ s @ b) = str_replace old new a' @ s @ str_replace old new b"
        by blast
      with old show ?thesis by (simp add: a str_replace_at)
    next
      case False
      then have "\<not> prefix old a" by (auto simp: prefix_def)
      moreover from 1 Cons have "str_replace old new (cs @ s @ b) = str_replace old new cs @ s @ str_replace old new b"
        by simp
      ultimately show ?thesis using False old by (simp add: Cons)
    qed
  qed
qed

lemma str_replace_absent:
  "old \<noteq> [] \<Longrightarrow> \<not> sublist old t \<Longrightarrow> str_replace old new t = t"
  by (induction t) (auto simp: sublist_Cons_right)

lemma str_replace_puts_new:
  "old \<noteq> [] \<Longrightarrow> sublist old t \<Longrightarrow> sublist new (str_replace old new t)"
proof (induction old new t rule: str_replace.induct)
  case (1 old new)
  then show ?case by simp
next
  case (2 old new c cs)
  show ?case
  proof (cases "prefix old (c # cs)")
    case True
    with 2 show ?thesis by simp
  next
    case False
    with 2 have "sublist old cs" by (simp add: sublist_Cons_right)
    with 2 False have "sublist new (str_replace old new cs)" by simp
    with 2 False show ?thesis by (simp add: sublist_Cons_right)
  qed
qed

section \<open>The tags\<close>

lemma digit_in: "d < 10 \<Longrightarrow> digit d \<in> set ''0123456789''"
  unfolding digit_def by (rule nth_mem) simp

lemma str_nat_digits: "set (str_nat n) \<subseteq> set ''0123456789''"
proof (induction n rule: str_nat.induct)
  case (1 n)
  show ?case
  proof (cases "n < 10")
    case True
    then show ?thesis using digit_in[of n] by (subst str_nat.simps) simp
  next
    case False
    with 1 have "set (str_nat (n div 10)) \<subseteq> set ''0123456789''" by simp
    moreover have "digit (n mod 10) \<in> set ''0123456789''" by (rule digit_in) simp
    ultimately show ?thesis using False by (subst str_nat.simps) simp
  qed
qed

lemma str_nat_no: "c \<notin> set ''0123456789'' \<Longrightarrow> c \<notin> set (str_nat n)"
  using str_nat_digits by blast

lemma apart_tags_RAG_Internet:
  "apart (opening_tag ''Internet'' j) (opening_tag ''RAG'' k)"
  "apart (opening_tag ''Internet'' j) (closing_tag ''RAG'')"
  "apart (closing_tag ''Internet'') (opening_tag ''RAG'' k)"
  "apart (closing_tag ''Internet'') (closing_tag ''RAG'')"
  "apart (opening_tag ''RAG'' j) (opening_tag ''Internet'' k)"
  "apart (opening_tag ''RAG'' j) (closing_tag ''Internet'')"
  "apart (closing_tag ''RAG'') (opening_tag ''Internet'' k)"
  "apart (closing_tag ''RAG'') (closing_tag ''Internet'')"
  by (simp_all add: apart_def opening_tag_def closing_tag_def str_nat_no)

lemma replace_tags_around:
  assumes "apart (closing_tag kind) s" "\<And>j. apart (opening_tag kind j) s"
  shows "replace_tags kind i refs (a @ s @ b) =
         replace_tags kind i refs a @ s @ replace_tags kind i refs b"
  using assms by (induction refs arbitrary: i a b) (simp_all add: str_replace_around)

section \<open>Substitution with an empty reference list\<close>

text \<open>
  Claim C9. The closing tags \<^verbatim>\<open></RAG>\<close> are removed inside the loop over the RAG list and
  the closing tags \<^verbatim>\<open></Internet>\<close> inside the loop over the InternetSearch list, so nothing
  is removed for a kind whose list is empty. When both lists are empty (or missing) the text
  comes back unchanged. When the list of one kind is empty, every tag of that kind, opening
  with any number or closing, stays where it is: the text before it and the text behind it
  are processed on their own and the tag stands between the two results.
\<close>

theorem tags_of_empty_kind_left_in_place:
  "(dict_get refs ''RAG'' = [] \<and> dict_get refs ''InternetSearch'' = [] \<longrightarrow>
      replace_reference_tags text refs = text) \<and>
   (dict_get refs ''RAG'' = [] \<and> (tag = closing_tag ''RAG'' \<or> tag = opening_tag ''RAG'' k) \<longrightarrow>
      replace_reference_tags (a @ tag @ b) refs =
      replace_reference_tags a refs @ tag @ replace_reference_tags b refs) \<and>
   (dict_get refs ''InternetSearch'' = [] \<and>
      (tag = closing_tag ''Internet'' \<or> tag = opening_tag ''Internet'' k) \<longrightarrow>
      replace_reference_tags (a @ tag @ b) refs =
      replace_reference_tags a refs @ tag @ replace_reference_tags b refs)"
  by (auto simp: replace_reference_tags_def replace_tags_around apart_tags_RAG_Internet)

theorem tags_of_empty_kind_left_in_place_witness:
  "dict_get [''InternetSearch'' \<mapsto> [''u'']] ''RAG'' = [] \<and>
   replace_reference_tags (''x'' @ closing_tag ''RAG'' @ ''y<RAG id=1></Internet><Internet id=1>'')
     [''InternetSearch'' \<mapsto> [''u'']] = ''x</RAG>y<RAG id=1>[u]'' \<and>
   dict_get [''RAG'' \<mapsto> [''r'']] ''InternetSearch'' = [] \<and>
   replace_reference_tags (''x</RAG>'' @ opening_tag ''Internet'' 1 @ ''y<RAG id=1>'')
     [''RAG'' \<mapsto> [''r'']] = ''x<Internet id=1>y[r]'' \<and>
   replace_reference_tags ''<RAG id=1>x</RAG><Internet id=1>y</Internet>'' Map.empty =
     ''<RAG id=1>x</RAG><Internet id=1>y</Internet>''"
proof -
  let ?W = "[''InternetSearch'' \<mapsto> [''u'']] :: string \<rightharpoonup> string list"
  let ?R = "[''RAG'' \<mapsto> [''r'']] :: string \<rightharpoonup> string list"
  let ?E = "Map.empty :: string \<rightharpoonup> string list"
  note T = tags_of_empty_kind_left_in_place
  note ev = replace_reference_tags_def dict_get_def opening_tag_def closing_tag_def
    str_nat.simps digit_def
  have w: "dict_get ?W ''RAG'' = []" and r: "dict_get ?R ''InternetSearch'' = []"
    and e: "dict_get ?E ''RAG'' = [] \<and> dict_get ?E ''InternetSearch'' = []"
    by (simp_all add: dict_get_def)
  have "replace_reference_tags (''x'' @ closing_tag ''RAG'' @ ''y<RAG id=1></Internet><Internet id=1>'') ?W =
        replace_reference_tags ''x'' ?W @ closing_tag ''RAG'' @
        replace_reference_tags ''y<RAG id=1></Internet><Internet id=1>'' ?W"
    using T[where refs = ?W and tag = "closing_tag ''RAG''" and a = "''x''"
        and b = "''y<RAG id=1></Internet><Internet id=1>''"] w
    by blast
  moreover have "replace_reference_tags ''x'' ?W = ''x''"
    by (simp add: ev)
  moreover have "replace_reference_tags ''y<RAG id=1></Internet><Internet id=1>'' ?W = ''y<RAG id=1>[u]''"
    by (simp add: ev)
  ultimately have 1: "replace_reference_tags
      (''x'' @ closing_tag ''RAG'' @ ''y<RAG id=1></Internet><Internet id=1>'') ?W =
      ''x</RAG>y<RAG id=1>[u]''"
    by (simp add: closing_tag_def)
  have "replace_reference_tags (''x</RAG>'' @ opening_tag ''Internet'' 1 @ ''y<RAG id=1>'') ?R =
        replace_reference_tags ''x</RAG>'' ?R @ opening_tag ''Internet'' 1 @
        replace_reference_tags ''y<RAG id=1>'' ?R"
    using T[where refs = ?R and tag = "opening_tag ''Internet'' 1" and k = 1
        and a = "''x</RAG>''" and b = "''y<RAG id=1>''"] r
    by blast
  moreover have "replace_reference_tags ''x</RAG>'' ?R = ''x''"
    by (simp add: ev)
  moreover have "replace_reference_tags ''y<RAG id=1>'' ?R = ''y[r]''"
    by (simp add: ev)
  moreover have "opening_tag ''Internet'' 1 = ''<Internet id=1>''"
    by (simp add: opening_tag_def str_nat.simps digit_def)
  ultimately have 2: "replace_reference_tags
      (''x</RAG>'' @ opening_tag ''Internet'' 1 @ ''y<RAG id=1>'') ?R = ''x<Internet id=1>y[r]''"
    by simp
  have 3: "replace_reference_tags ''<RAG id=1>x</RAG><Internet id=1>y</Internet>'' ?E =
      ''<RAG id=1>x</RAG><Internet id=1>y</Internet>''"
    using T[of ?E "''<RAG id=1>x</RAG><Internet id=1>y</Internet>''"] e
    by blast
  from 1 2 3 w r show ?thesis by simp
qed

section \<open>Well-tagged texts\<close>

lemma is_tag_iff:
  "is_tag s \<longleftrightarrow> (\<exists>body. s = CHR ''<'' # body @ ''>'' \<and> CHR ''<'' \<notin> set body \<and> CHR ''>'' \<notin> set body)"
proof
  assume "is_tag s"
  then obtain r where "s = CHR ''<'' # r" "r \<noteq> []" "last r = CHR ''>''"
    "CHR ''<'' \<notin> set (butlast r)" "CHR ''>'' \<notin> set (butlast r)"
    by (auto simp: is_tag_def split: list.splits)
  then have "s = CHR ''<'' # butlast r @ ''>''"
    using append_butlast_last_id[of r] by simp
  with \<open>CHR ''<'' \<notin> set (butlast r)\<close> \<open>CHR ''>'' \<notin> set (butlast r)\<close> show "\<exists>body. s = CHR ''<'' # body @ ''>'' \<and> CHR ''<'' \<notin> set body \<and> CHR ''>'' \<notin> set body"
    by blast
next
  assume "\<exists>body. s = CHR ''<'' # body @ ''>'' \<and> CHR ''<'' \<notin> set body \<and> CHR ''>'' \<notin> set body"
  then show "is_tag s" by (auto simp: is_tag_def)
qed

lemma tags_closed_inside:
  "tags_closed True cs \<Longrightarrow>
   \<exists>body r. cs = body @ CHR ''>'' # r \<and> CHR ''<'' \<notin> set body \<and> CHR ''>'' \<notin> set body \<and> tags_closed False r"
proof (induction cs)
  case Nil
  then show ?case by simp
next
  case (Cons c cs)
  show ?case
  proof (cases "c = CHR ''>''")
    case True
    with Cons.prems have "tags_closed False cs" by simp
    with True show ?thesis by (intro exI[of _ "[]"] exI[of _ cs]) simp
  next
    case False
    with Cons.prems have c: "c \<noteq> CHR ''<''" and "tags_closed True cs"
      by (auto split: if_splits)
    with Cons.IH obtain body r where "cs = body @ CHR ''>'' # r" "CHR ''<'' \<notin> set body"
      "CHR ''>'' \<notin> set body" "tags_closed False r" by blast
    with c False show ?thesis
      by (intro exI[of _ "c # body"] exI[of _ r]) simp
  qed
qed

lemma tags_closed_plain:
  "CHR ''<'' \<notin> set x \<Longrightarrow> tags_closed False (x @ t) = tags_closed False t"
  by (induction x) auto

lemma tags_closed_body:
  "CHR ''<'' \<notin> set body \<Longrightarrow> CHR ''>'' \<notin> set body \<Longrightarrow>
   tags_closed True (body @ CHR ''>'' # r) = tags_closed False r"
  by (induction body) auto

lemma well_tagged_tag:
  "is_tag s \<Longrightarrow> well_tagged (s @ t) = well_tagged t"
  by (auto simp: is_tag_iff well_tagged_def tags_closed_body)

lemma well_tagged_cases:
  assumes "well_tagged t"
  obtains (Nil) "t = []"
  | (Plain) c t' where "t = c # t'" "c \<noteq> CHR ''<''" "well_tagged t'"
  | (Tag) s t' where "t = s @ t'" "is_tag s" "well_tagged t'"
proof (cases t)
  case Nil
  then show ?thesis using that by simp
next
  case (Cons c cs)
  show ?thesis
  proof (cases "c = CHR ''<''")
    case True
    with assms Cons have "tags_closed True cs" by (simp add: well_tagged_def)
    then obtain body r where "cs = body @ CHR ''>'' # r" "CHR ''<'' \<notin> set body"
      "CHR ''>'' \<notin> set body" "tags_closed False r"
      using tags_closed_inside by blast
    then have "t = (CHR ''<'' # body @ ''>'') @ r" "is_tag (CHR ''<'' # body @ ''>'')" "well_tagged r"
      using Cons True by (auto simp: is_tag_iff well_tagged_def)
    then show ?thesis using that(3) by blast
  next
    case False
    with assms Cons have "well_tagged cs" by (auto simp: well_tagged_def split: if_splits)
    with Cons False show ?thesis using that(2) by blast
  qed
qed

lemma is_tag_nonempty: "is_tag s \<Longrightarrow> s \<noteq> []"
  by (auto simp: is_tag_iff)

lemma is_tag_hd: "is_tag s \<Longrightarrow> hd s = CHR ''<''"
  by (auto simp: is_tag_iff)

lemma is_tag_tl: "is_tag s \<Longrightarrow> CHR ''<'' \<notin> set (tl s)"
  by (auto simp: is_tag_iff)

lemma is_tag_prefix: 
  assumes "is_tag s" "is_tag u" "prefix s u" shows "s = u"
proof -
  from assms(1) obtain b1 where s: "s = CHR ''<'' # b1 @ ''>''" "CHR ''>'' \<notin> set b1" by (auto simp: is_tag_iff)
  from assms(2) obtain b2 where u: "u = CHR ''<'' # b2 @ ''>''" "CHR ''>'' \<notin> set b2" by (auto simp: is_tag_iff)
  from assms(3) s u have "prefix (b1 @ ''>'') (b2 @ ''>'')" by simp
  then obtain z where z: "b2 @ ''>'' = b1 @ ''>'' @ z" by (auto simp: prefix_def)
  show ?thesis
  proof (cases z rule: rev_cases)
    case Nil
    with z s u show ?thesis by simp
  next
    case (snoc z' c)
    with z have "b2 = b1 @ ''>'' @ z'" by simp
    with u(2) show ?thesis by simp
  qed
qed

lemma apart_tags: "is_tag s \<Longrightarrow> is_tag u \<Longrightarrow> s \<noteq> u \<Longrightarrow> apart s u"
  using is_tag_prefix[of s u] is_tag_prefix[of u s]
  by (auto simp: apart_def is_tag_nonempty is_tag_hd is_tag_tl)

text \<open>An occurrence of a tag in a text that starts with a tag or with a plain character.\<close>

lemma sublist_tag_after_plain:
  assumes "is_tag s" "CHR ''<'' \<notin> set x" "sublist s (x @ u)"
  shows "sublist s u"
  using assms(2,3)
proof (induction x)
  case Nil
  then show ?case by simp
next
  case (Cons c x)
  from assms(1) Cons.prems(1) have "\<not> prefix s (c # x @ u)"
    by (auto simp: is_tag_iff)
  with Cons show ?case by (simp add: sublist_Cons_right)
qed

lemma sublist_tag_after_tag:
  assumes "is_tag s" "is_tag u" "sublist s (u @ t)"
  shows "s = u \<or> sublist s t"
proof -
  from assms(2) obtain r where u: "u = CHR ''<'' # r" "CHR ''<'' \<notin> set r"
    by (auto simp: is_tag_iff)
  from assms(3) u have "prefix s (u @ t) \<or> sublist s (r @ t)"
    by (simp add: sublist_Cons_right)
  then show ?thesis
  proof
    assume "prefix s (u @ t)"
    moreover have "prefix u (u @ t)" by simp
    ultimately have "prefix s u \<or> prefix u s" using prefix_same_cases by blast
    with assms(1,2) show ?thesis using is_tag_prefix by blast
  next
    assume "sublist s (r @ t)"
    with assms(1) u(2) show ?thesis using sublist_tag_after_plain by blast
  qed
qed

lemma str_replace_well_tagged:
  assumes "is_tag old" "CHR ''<'' \<notin> set new"
  shows "well_tagged t \<Longrightarrow>
     well_tagged (str_replace old new t) \<and>
     (\<forall>s. is_tag s \<and> sublist s (str_replace old new t) \<longrightarrow> s \<noteq> old \<and> sublist s t)"
proof (induction t rule: length_induct)
  case (1 t)
  from assms(1) have old: "old \<noteq> []" "hd old = CHR ''<''" by (simp_all add: is_tag_nonempty is_tag_hd)
  from "1.prems" show ?case
  proof (cases t rule: well_tagged_cases)
    case Nil
    with old show ?thesis by (simp add: well_tagged_def is_tag_nonempty)
  next
    case (Plain c t')
    then have "length t' < length t" by simp
    with "1.IH" Plain(3) have "well_tagged (str_replace old new t') \<and>
      (\<forall>s. is_tag s \<and> sublist s (str_replace old new t') \<longrightarrow> s \<noteq> old \<and> sublist s t')"
      by blast
    then have IH: "well_tagged (str_replace old new t')"
      "\<And>s. is_tag s \<Longrightarrow> sublist s (str_replace old new t') \<Longrightarrow> s \<noteq> old \<and> sublist s t'"
      by blast+
    from Plain old have eq: "str_replace old new t = c # str_replace old new t'"
      by (cases old) auto
    have "well_tagged (c # str_replace old new t')"
      using IH(1) Plain(2) by (simp add: well_tagged_def)
    moreover have "s \<noteq> old \<and> sublist s t" if "is_tag s" "sublist s (c # str_replace old new t')" for s
    proof -
      from that Plain(2) have "sublist s (str_replace old new t')"
        using sublist_tag_after_plain[of s "[c]"] by simp
      with IH(2) that(1) have "s \<noteq> old \<and> sublist s t'" by blast
      then show ?thesis by (auto simp: Plain(1) sublist_Cons_right)
    qed
    ultimately show ?thesis by (simp add: eq)
  next
    case (Tag u t')
    then have "length t' < length t" by (simp add: is_tag_nonempty)
    with "1.IH" Tag(3) have "well_tagged (str_replace old new t') \<and>
      (\<forall>s. is_tag s \<and> sublist s (str_replace old new t') \<longrightarrow> s \<noteq> old \<and> sublist s t')"
      by blast
    then have IH: "well_tagged (str_replace old new t')"
      "\<And>s. is_tag s \<Longrightarrow> sublist s (str_replace old new t') \<Longrightarrow> s \<noteq> old \<and> sublist s t'"
      by blast+
    show ?thesis
    proof (cases "u = old")
      case True
      with Tag old have eq: "str_replace old new t = new @ str_replace old new t'"
        by (simp add: str_replace_at)
      have "well_tagged (new @ str_replace old new t')"
        using IH(1) assms(2) by (simp add: well_tagged_def tags_closed_plain)
      moreover have "s \<noteq> old \<and> sublist s t" if "is_tag s" "sublist s (new @ str_replace old new t')" for s
      proof -
        from that assms(2) have "sublist s (str_replace old new t')"
          using sublist_tag_after_plain by blast
        with IH(2) that(1) have "s \<noteq> old \<and> sublist s t'" by blast
        then show ?thesis by (auto simp: Tag(1) sublist_append)
      qed
      ultimately show ?thesis by (simp add: eq)
    next
      case False
      with Tag assms(1) have "apart old u" by (simp add: apart_tags)
      then have eq: "str_replace old new t = u @ str_replace old new t'"
        by (simp add: Tag(1) str_replace_keep)
      have "well_tagged (u @ str_replace old new t')"
        using IH(1) Tag(2) by (simp add: well_tagged_tag)
      moreover have "s \<noteq> old \<and> sublist s t" if "is_tag s" "sublist s (u @ str_replace old new t')" for s
      proof -
        from that Tag(2) consider "s = u" | "sublist s (str_replace old new t')"
          using sublist_tag_after_tag by blast
        then show ?thesis
        proof cases
          case 1
          with False show ?thesis by (simp add: Tag(1))
        next
          case 2
          with IH(2) that(1) have "s \<noteq> old \<and> sublist s t'" by blast
          then show ?thesis by (auto simp: Tag(1) sublist_append)
        qed
      qed
      ultimately show ?thesis by (simp add: eq)
    qed
  qed
qed

lemma is_tag_opening:
  "CHR ''<'' \<notin> set kind \<Longrightarrow> CHR ''>'' \<notin> set kind \<Longrightarrow> is_tag (opening_tag kind i)"
  unfolding is_tag_iff opening_tag_def
  by (intro exI[of _ "kind @ '' id='' @ str_nat i"]) (simp add: str_nat_no)

lemma is_tag_closing:
  "CHR ''<'' \<notin> set kind \<Longrightarrow> CHR ''>'' \<notin> set kind \<Longrightarrow> is_tag (closing_tag kind)"
  unfolding is_tag_iff closing_tag_def
  by (intro exI[of _ "''/'' @ kind"]) simp

lemma replace_tags_well_tagged:
  assumes "CHR ''<'' \<notin> set kind" "CHR ''>'' \<notin> set kind"
  shows "\<forall>r\<in>set refs. CHR ''<'' \<notin> set r \<Longrightarrow> well_tagged t \<Longrightarrow>
     well_tagged (replace_tags kind i refs t) \<and>
     (\<forall>s. is_tag s \<and> sublist s (replace_tags kind i refs t) \<longrightarrow>
        sublist s t \<and> (refs \<noteq> [] \<longrightarrow> s \<noteq> closing_tag kind) \<and>
        (\<forall>j. i \<le> j \<and> j < i + length refs \<longrightarrow> s \<noteq> opening_tag kind j))"
proof (induction refs arbitrary: i t)
  case Nil
  then show ?case by auto
next
  case (Cons r rs)
  let ?t1 = "str_replace (opening_tag kind i) (''['' @ r @ '']'') t"
  let ?t2 = "str_replace (closing_tag kind) [] ?t1"
  from Cons.prems(1) have r: "CHR ''<'' \<notin> set (''['' @ r @ '']'')" by simp
  have s1: "well_tagged ?t1 \<and>
     (\<forall>s. is_tag s \<and> sublist s ?t1 \<longrightarrow> s \<noteq> opening_tag kind i \<and> sublist s t)"
    using str_replace_well_tagged[OF is_tag_opening[OF assms] r Cons.prems(2)] .
  then have "well_tagged ?t1" by blast
  then have s2: "well_tagged ?t2 \<and>
     (\<forall>s. is_tag s \<and> sublist s ?t2 \<longrightarrow> s \<noteq> closing_tag kind \<and> sublist s ?t1)"
    using str_replace_well_tagged[OF is_tag_closing[OF assms], of "[]" ?t1] by simp
  then have "well_tagged ?t2" by blast
  with Cons.IH[of ?t2 "Suc i"] Cons.prems(1)
  have s3: "well_tagged (replace_tags kind (Suc i) rs ?t2) \<and>
     (\<forall>s. is_tag s \<and> sublist s (replace_tags kind (Suc i) rs ?t2) \<longrightarrow>
        sublist s ?t2 \<and> (rs \<noteq> [] \<longrightarrow> s \<noteq> closing_tag kind) \<and>
        (\<forall>j. Suc i \<le> j \<and> j < Suc i + length rs \<longrightarrow> s \<noteq> opening_tag kind j))"
    by simp
  have "sublist s t \<and> s \<noteq> closing_tag kind \<and>
        (\<forall>j. i \<le> j \<and> j < i + length (r # rs) \<longrightarrow> s \<noteq> opening_tag kind j)"
    if "is_tag s" "sublist s (replace_tags kind (Suc i) rs ?t2)" for s
  proof -
    from s3 that have a: "sublist s ?t2" "\<forall>j. Suc i \<le> j \<and> j < Suc i + length rs \<longrightarrow> s \<noteq> opening_tag kind j"
      by blast+
    with s2 that(1) have b: "s \<noteq> closing_tag kind" "sublist s ?t1" by blast+
    with s1 that(1) have c: "s \<noteq> opening_tag kind i" "sublist s t" by blast+
    have "s \<noteq> opening_tag kind j" if "i \<le> j" "j < i + length (r # rs)" for j
    proof (cases "j = i")
      case True
      with c show ?thesis by simp
    next
      case False
      with that have "Suc i \<le> j \<and> j < Suc i + length rs" by simp
      with a(2) show ?thesis by blast
    qed
    with b c show ?thesis by blast
  qed
  with s3 show ?case by simp
qed

lemma replace_tags_absent:
  assumes "closing_tag kind \<noteq> []" "\<And>j. opening_tag kind j \<noteq> []"
  shows "(refs \<noteq> [] \<longrightarrow> \<not> sublist (closing_tag kind) t) \<Longrightarrow>
     (\<forall>j. i \<le> j \<and> j < i + length refs \<longrightarrow> \<not> sublist (opening_tag kind j) t) \<Longrightarrow>
     replace_tags kind i refs t = t"
proof (induction refs arbitrary: i)
  case Nil
  then show ?case by simp
next
  case (Cons r rs)
  from Cons.prems have "\<not> sublist (opening_tag kind i) t" "\<not> sublist (closing_tag kind) t"
    by auto
  then have "str_replace (closing_tag kind) [] (str_replace (opening_tag kind i) (''['' @ r @ '']'') t) = t"
    using assms by (simp add: str_replace_absent)
  moreover have "replace_tags kind (Suc i) rs t = t"
    using Cons.prems by (intro Cons.IH) auto
  ultimately show ?case by simp
qed

lemma replace_tags_keeps:
  assumes "apart (closing_tag kind) s" "\<And>j. apart (opening_tag kind j) s" "sublist s t"
  shows "sublist s (replace_tags kind i refs t)"
proof -
  from assms(3) obtain a b where "t = a @ s @ b" by (auto simp: sublist_def)
  then show ?thesis using replace_tags_around[OF assms(1,2)] by simp
qed

lemma str_replace_keeps:
  assumes "apart old s" "sublist s t"
  shows "sublist s (str_replace old new t)"
proof -
  from assms(2) obtain a b where "t = a @ s @ b" by (auto simp: sublist_def)
  then show ?thesis using str_replace_around[OF assms(1)] by simp
qed

lemma apart_bracketed:
  assumes "is_tag p" "CHR ''['' \<notin> set p" "CHR ''<'' \<notin> set r"
  shows "apart p (''['' @ r @ '']'')"
  using assms by (auto simp: apart_def is_tag_iff)

lemma kinds_plain:
  "CHR ''<'' \<notin> set ''RAG''" "CHR ''>'' \<notin> set ''RAG''"
  "CHR ''<'' \<notin> set ''Internet''" "CHR ''>'' \<notin> set ''Internet''"
  by simp_all

lemma no_bracket_in_tags:
  "CHR ''['' \<notin> set (opening_tag ''RAG'' j)" "CHR ''['' \<notin> set (closing_tag ''RAG'')"
  "CHR ''['' \<notin> set (opening_tag ''Internet'' j)" "CHR ''['' \<notin> set (closing_tag ''Internet'')"
  by (simp_all add: opening_tag_def closing_tag_def str_nat_no)

lemma opening_tag_RAG_2: "opening_tag ''RAG'' 2 = ''<RAG id=2>''"
  by (simp add: opening_tag_def str_nat.simps digit_def)

lemma closing_tag_RAG: "closing_tag ''RAG'' = ''</RAG>''"
  by (simp add: closing_tag_def)

lemma apart_tag_bracketed:
  assumes "CHR ''<'' \<notin> set r"
  shows "apart (closing_tag ''RAG'') (CHR ''['' # r @ '']'')"
    and "apart (opening_tag ''RAG'' j) (CHR ''['' # r @ '']'')"
    and "apart (closing_tag ''Internet'') (CHR ''['' # r @ '']'')"
    and "apart (opening_tag ''Internet'' j) (CHR ''['' # r @ '']'')"
  using assms by (simp_all add: apart_def closing_tag_def opening_tag_def str_nat_no)

lemma bracketed_kept:
  assumes "CHR ''<'' \<notin> set r" "sublist (CHR ''['' # r @ '']'') t"
  shows "sublist (CHR ''['' # r @ '']'') (replace_tags ''RAG'' i refs t)"
    and "sublist (CHR ''['' # r @ '']'') (replace_tags ''Internet'' i refs t)"
    and "sublist (CHR ''['' # r @ '']'') (str_replace (closing_tag ''RAG'') new t)"
  using assms(2) apart_tag_bracketed[OF assms(1)]
  by (auto intro: replace_tags_keeps str_replace_keeps)

section \<open>The substituted marker\<close>

text \<open>
  The marker \<^verbatim>\<open><RAG id=2>\<close> survives the first round, is replaced in the second, and the
  bracketed origin survives everything behind that when it contains no \<^verbatim>\<open><\<close>.
\<close>

lemma second_origin_bracketed:
  assumes "sublist ''<RAG id=2>'' text"
    and "2 \<le> length (dict_get refs ''RAG'')"
    and "CHR ''<'' \<notin> set (dict_get refs ''RAG'' ! 1)"
  shows "sublist (''['' @ dict_get refs ''RAG'' ! 1 @ '']'') (replace_reference_tags text refs)"
proof -
  let ?rag = "dict_get refs ''RAG''" and ?web = "dict_get refs ''InternetSearch''"
  from assms(2) obtain r1 r2 rs where rag: "?rag = r1 # r2 # rs"
    by (cases ?rag; cases "tl ?rag") auto
  with assms(3) have r2: "CHR ''<'' \<notin> set r2" by simp
  let ?u1 = "replace_tags ''RAG'' 1 ?rag text"
  let ?t1 = "str_replace ''<RAG id=1>'' (''['' @ r1 @ '']'') text"
  let ?t2 = "str_replace ''</RAG>'' [] ?t1"
  let ?t3 = "str_replace ''<RAG id=2>'' (''['' @ r2 @ '']'') ?t2"
  let ?t4 = "str_replace ''</RAG>'' [] ?t3"
  have "sublist ''<RAG id=2>'' ?t1"
    by (rule str_replace_keeps[OF _ assms(1)]) (simp add: apart_def)
  then have "sublist ''<RAG id=2>'' ?t2"
    by (rule str_replace_keeps[rotated]) (simp add: apart_def)
  then have "sublist (CHR ''['' # r2 @ '']'') ?t3"
    using str_replace_puts_new[of "''<RAG id=2>''" ?t2 "''['' @ r2 @ '']''"] by simp
  then have "sublist (CHR ''['' # r2 @ '']'') ?t4"
    using bracketed_kept(3)[OF r2] by (simp add: closing_tag_RAG)
  then have "sublist (CHR ''['' # r2 @ '']'') (replace_tags ''RAG'' (Suc (Suc 1)) rs ?t4)"
    using bracketed_kept(1)[OF r2] by blast
  moreover have "?u1 = replace_tags ''RAG'' (Suc (Suc 1)) rs ?t4"
    by (simp add: rag opening_tag_def closing_tag_def str_nat.simps digit_def)
  ultimately have "sublist (CHR ''['' # r2 @ '']'') ?u1" by simp
  then have "sublist (CHR ''['' # r2 @ '']'') (replace_tags ''Internet'' 1 ?web ?u1)"
    using bracketed_kept(2)[OF r2] by blast
  then show ?thesis
    by (simp add: replace_reference_tags_def rag)
qed

text \<open>On a well-tagged answer with origins free of \<^verbatim>\<open><\<close> no tag of the RAG rounds is left.\<close>

lemma second_marker_gone:
  assumes "2 \<le> length (dict_get refs ''RAG'')"
    and "well_tagged text"
    and "\<forall>r\<in>set (dict_get refs ''RAG''). CHR ''<'' \<notin> set r"
    and "\<forall>r\<in>set (dict_get refs ''InternetSearch''). CHR ''<'' \<notin> set r"
  shows "\<not> sublist ''<RAG id=2>'' (replace_reference_tags text refs)"
    and "\<not> sublist ''</RAG>'' (replace_reference_tags text refs)"
proof -
  let ?rag = "dict_get refs ''RAG''" and ?web = "dict_get refs ''InternetSearch''"
  let ?u1 = "replace_tags ''RAG'' 1 ?rag text"
  let ?u = "replace_tags ''Internet'' 1 ?web ?u1"
  note R = replace_tags_well_tagged[OF kinds_plain(1,2) assms(3) assms(2), of 1]
  then have wt1: "well_tagged ?u1" by blast
  note W = replace_tags_well_tagged[OF kinds_plain(3,4) assms(4) wt1, of 1]
  from assms(1) have ne: "?rag \<noteq> []" and two: "(1::nat) \<le> 2 \<and> 2 < 1 + length ?rag"
    by auto
  have "\<not> sublist (opening_tag ''RAG'' 2) ?u"
    using R W is_tag_opening[OF kinds_plain(1,2), of 2] two by blast
  then show "\<not> sublist ''<RAG id=2>'' (replace_reference_tags text refs)"
    by (simp add: replace_reference_tags_def opening_tag_RAG_2)
  have "\<not> sublist (closing_tag ''RAG'') ?u"
    using R W is_tag_closing[OF kinds_plain(1,2)] ne by blast
  then show "\<not> sublist ''</RAG>'' (replace_reference_tags text refs)"
    by (simp add: replace_reference_tags_def closing_tag_RAG)
qed

text \<open>
  Claim C3, as amended. Let the answer contain \<^verbatim>\<open><RAG id=2>\<close> and let the RAG list have at least
  two entries. If the second origin contains no \<^verbatim>\<open><\<close>, the post-processed answer contains
  the second origin in brackets. If moreover the angle brackets of the answer are not nested
  and no origin of either list contains \<^verbatim>\<open><\<close>, the post-processed answer contains neither
  \<^verbatim>\<open><RAG id=2>\<close> nor \<^verbatim>\<open></RAG>\<close>.
\<close>

theorem second_RAG_marker_substituted:
  assumes "sublist ''<RAG id=2>'' text"
    and "2 \<le> length (dict_get refs ''RAG'')"
  shows "(CHR ''<'' \<notin> set (dict_get refs ''RAG'' ! 1) \<longrightarrow>
            sublist (''['' @ dict_get refs ''RAG'' ! 1 @ '']'') (replace_reference_tags text refs)) \<and>
         (well_tagged text \<and>
          (\<forall>r\<in>set (dict_get refs ''RAG''). CHR ''<'' \<notin> set r) \<and>
          (\<forall>r\<in>set (dict_get refs ''InternetSearch''). CHR ''<'' \<notin> set r) \<longrightarrow>
            \<not> sublist ''<RAG id=2>'' (replace_reference_tags text refs) \<and>
            \<not> sublist ''</RAG>'' (replace_reference_tags text refs))"
  using second_origin_bracketed[OF assms] second_marker_gone[OF assms(2)] by blast

theorem second_RAG_marker_substituted_witness:
  "sublist ''<RAG id=2>'' ''see <RAG id=2>x</RAG>'' \<and>
   2 \<le> length (dict_get [''RAG'' \<mapsto> [''a'', ''b'']] ''RAG'') \<and>
   well_tagged ''see <RAG id=2>x</RAG>'' \<and>
   replace_reference_tags ''see <RAG id=2>x</RAG>'' [''RAG'' \<mapsto> [''a'', ''b'']] = ''see [b]x'' \<and>
   sublist ''[b]'' (replace_reference_tags ''see <RAG id=2>x</RAG>'' [''RAG'' \<mapsto> [''a'', ''b'']]) \<and>
   \<not> sublist ''<RAG id=2>'' (replace_reference_tags ''see <RAG id=2>x</RAG>'' [''RAG'' \<mapsto> [''a'', ''b'']]) \<and>
   \<not> sublist ''</RAG>'' (replace_reference_tags ''see <RAG id=2>x</RAG>'' [''RAG'' \<mapsto> [''a'', ''b'']])"
proof -
  let ?T = "''see <RAG id=2>x</RAG>''"
  let ?R = "[''RAG'' \<mapsto> [''a'', ''b'']] :: string \<rightharpoonup> string list"
  have h1: "sublist ''<RAG id=2>'' ?T" by (simp add: sublist_code)
  have h2: "2 \<le> length (dict_get ?R ''RAG'')" by (simp add: dict_get_def)
  have h3: "well_tagged ?T" by (simp add: well_tagged_def)
  have h4: "\<forall>r\<in>set (dict_get ?R ''RAG''). CHR ''<'' \<notin> set r" by (simp add: dict_get_def)
  have h5: "\<forall>r\<in>set (dict_get ?R ''InternetSearch''). CHR ''<'' \<notin> set r" by (simp add: dict_get_def)
  have h6: "CHR ''<'' \<notin> set (dict_get ?R ''RAG'' ! 1)" by (simp add: dict_get_def)
  have e: "replace_reference_tags ?T ?R = ''see [b]x''"
    by (simp add: replace_reference_tags_def dict_get_def opening_tag_def closing_tag_def
        str_nat.simps digit_def)
  have b: "dict_get ?R ''RAG'' ! 1 = ''b''" by (simp add: dict_get_def)
  from second_RAG_marker_substituted[OF h1 h2] h3 h4 h5 h6
  have "sublist (''['' @ dict_get ?R ''RAG'' ! 1 @ '']'') (replace_reference_tags ?T ?R) \<and>
        \<not> sublist ''<RAG id=2>'' (replace_reference_tags ?T ?R) \<and>
        \<not> sublist ''</RAG>'' (replace_reference_tags ?T ?R)"
    by blast
  with b h1 h2 h3 e show ?thesis by simp
qed

text \<open>
  Without the conditions the claim fails. With nested closing tags one \<^verbatim>\<open></RAG>\<close> is left
  after the two rounds; an origin that is itself \<^verbatim>\<open><RAG id=2>\<close> puts the marker back; and an
  origin that contains \<^verbatim>\<open></RAG>\<close> loses it in the same round, so that the answer shows
  another text than the origin.
\<close>

theorem second_RAG_marker_counterexample:
  "sublist ''<RAG id=2>'' ''<RAG id=2></R</R</RAG>AG>AG>'' \<and>
   2 \<le> length (dict_get [''RAG'' \<mapsto> [''a'', ''b'']] ''RAG'') \<and>
   sublist ''</RAG>''
     (replace_reference_tags ''<RAG id=2></R</R</RAG>AG>AG>'' [''RAG'' \<mapsto> [''a'', ''b'']]) \<and>
   2 \<le> length (dict_get [''RAG'' \<mapsto> [''a'', ''<RAG id=2>'']] ''RAG'') \<and>
   sublist ''<RAG id=2>''
     (replace_reference_tags ''<RAG id=2>'' [''RAG'' \<mapsto> [''a'', ''<RAG id=2>'']]) \<and>
   2 \<le> length (dict_get [''RAG'' \<mapsto> [''a'', ''b</RAG>c'']] ''RAG'') \<and>
   \<not> sublist ''[b</RAG>c]''
     (replace_reference_tags ''<RAG id=2>'' [''RAG'' \<mapsto> [''a'', ''b</RAG>c'']])"
proof -
  have "replace_reference_tags ''<RAG id=2></R</R</RAG>AG>AG>'' [''RAG'' \<mapsto> [''a'', ''b'']] = ''[b]</RAG>''"
    by (simp add: replace_reference_tags_def dict_get_def opening_tag_def closing_tag_def
        str_nat.simps digit_def)
  moreover have "replace_reference_tags ''<RAG id=2>'' [''RAG'' \<mapsto> [''a'', ''<RAG id=2>'']] = ''[<RAG id=2>]''"
    by (simp add: replace_reference_tags_def dict_get_def opening_tag_def closing_tag_def
        str_nat.simps digit_def)
  moreover have "replace_reference_tags ''<RAG id=2>'' [''RAG'' \<mapsto> [''a'', ''b</RAG>c'']] = ''[bc]''"
    by (simp add: replace_reference_tags_def dict_get_def opening_tag_def closing_tag_def
        str_nat.simps digit_def)
  ultimately show ?thesis by (simp add: dict_get_def sublist_code)
qed

section \<open>Substituting twice\<close>

text \<open>
  Claim C4, as amended. For an answer whose angle brackets are not nested and a reference
  map whose origins contain no \<^verbatim>\<open><\<close>, substituting the substituted answer again changes
  nothing: the first pass leaves none of the tags it looks for.
\<close>

theorem substitution_idempotent_on_well_tagged:
  assumes "well_tagged text"
    and "\<forall>r\<in>set (dict_get refs ''RAG''). CHR ''<'' \<notin> set r"
    and "\<forall>r\<in>set (dict_get refs ''InternetSearch''). CHR ''<'' \<notin> set r"
  shows "replace_reference_tags (replace_reference_tags text refs) refs =
         replace_reference_tags text refs"
proof -
  let ?rag = "dict_get refs ''RAG''" and ?web = "dict_get refs ''InternetSearch''"
  let ?u1 = "replace_tags ''RAG'' 1 ?rag text"
  let ?u = "replace_tags ''Internet'' 1 ?web ?u1"
  note R = replace_tags_well_tagged[OF kinds_plain(1,2) assms(2) assms(1), of 1]
  then have wt1: "well_tagged ?u1" by blast
  note W = replace_tags_well_tagged[OF kinds_plain(3,4) assms(3) wt1, of 1]
  have rag_cl: "\<not> sublist (closing_tag ''RAG'') ?u" if "?rag \<noteq> []"
    using R W that is_tag_closing[OF kinds_plain(1,2)] by blast
  have rag_op: "\<not> sublist (opening_tag ''RAG'' j) ?u" if "1 \<le> j" "j < 1 + length ?rag" for j
    using R W that is_tag_opening[OF kinds_plain(1,2), of j] by blast
  have web_cl: "\<not> sublist (closing_tag ''Internet'') ?u" if "?web \<noteq> []"
    using W that is_tag_closing[OF kinds_plain(3,4)] by blast
  have web_op: "\<not> sublist (opening_tag ''Internet'' j) ?u" if "1 \<le> j" "j < 1 + length ?web" for j
    using W that is_tag_opening[OF kinds_plain(3,4), of j] by blast
  have "replace_tags ''RAG'' 1 ?rag ?u = ?u"
    using rag_cl rag_op
    by (intro replace_tags_absent) (auto simp: closing_tag_def opening_tag_def)
  moreover have "replace_tags ''Internet'' 1 ?web ?u = ?u"
    using web_cl web_op
    by (intro replace_tags_absent) (auto simp: closing_tag_def opening_tag_def)
  ultimately show ?thesis by (simp add: replace_reference_tags_def)
qed

theorem substitution_idempotent_witness:
  "well_tagged ''see <RAG id=2>x</RAG> and <Internet id=1>'' \<and>
   replace_reference_tags ''see <RAG id=2>x</RAG> and <Internet id=1>''
     [''RAG'' \<mapsto> [''a'', ''b''], ''InternetSearch'' \<mapsto> [''u'']] = ''see [b]x and [u]'' \<and>
   replace_reference_tags ''see [b]x and [u]''
     [''RAG'' \<mapsto> [''a'', ''b''], ''InternetSearch'' \<mapsto> [''u'']] = ''see [b]x and [u]''"
proof -
  let ?T = "''see <RAG id=2>x</RAG> and <Internet id=1>''"
  let ?R = "[''RAG'' \<mapsto> [''a'', ''b''], ''InternetSearch'' \<mapsto> [''u'']] :: string \<rightharpoonup> string list"
  have h1: "well_tagged ?T" by (simp add: well_tagged_def)
  have h2: "\<forall>r\<in>set (dict_get ?R ''RAG''). CHR ''<'' \<notin> set r" by (simp add: dict_get_def)
  have h3: "\<forall>r\<in>set (dict_get ?R ''InternetSearch''). CHR ''<'' \<notin> set r" by (simp add: dict_get_def)
  have e: "replace_reference_tags ?T ?R = ''see [b]x and [u]''"
    by (simp add: replace_reference_tags_def dict_get_def opening_tag_def closing_tag_def
        str_nat.simps digit_def)
  from substitution_idempotent_on_well_tagged[OF h1 h2 h3] h1 e show ?thesis by simp
qed

text \<open>
  In general a second pass does change the answer: nested closing tags are peeled one layer
  per round, and an origin that is itself a marker is bracketed again.
\<close>

theorem substitution_idempotent_counterexample:
  "replace_reference_tags (replace_reference_tags ''</R</RAG>AG>'' [''RAG'' \<mapsto> [''a'']]) [''RAG'' \<mapsto> [''a'']]
     \<noteq> replace_reference_tags ''</R</RAG>AG>'' [''RAG'' \<mapsto> [''a'']] \<and>
   replace_reference_tags ''<RAG id=1>'' [''RAG'' \<mapsto> [''<RAG id=1>'']] = ''[<RAG id=1>]'' \<and>
   replace_reference_tags ''[<RAG id=1>]'' [''RAG'' \<mapsto> [''<RAG id=1>'']] = ''[[<RAG id=1>]]''"
  by (simp add: replace_reference_tags_def dict_get_def opening_tag_def closing_tag_def
        str_nat.simps digit_def)

section \<open>The query rewriter\<close>

lemma parse_response_improvements: "snd (parse_response response original) \<noteq> []"
  by (auto simp: parse_response_def Let_def split: option.splits prod.splits)

text \<open>
  Claim C10. For every input string and every outcome of the chat call (an exception, a
  reply, a reply without content) \<^verbatim>\<open>rewrite_query\<close> returns a \<^verbatim>\<open>RewrittenQuery\<close>: the function is
  total. Its \<^verbatim>\<open>original_query\<close> is the input and its \<^verbatim>\<open>improvements\<close> list is not empty.
\<close>

theorem rewriter_always_returns:
  "original_query (rewrite_query w q) = q \<and> improvements (rewrite_query w q) \<noteq> []"
proof (cases "simple_chat w [(''user'', QUERY_REWRITER_PROMPT w q)]")
  case (Raises e)
  then show ?thesis by (simp add: rewrite_query_def)
next
  case (Returns response)
  obtain r i where p: "parse_response response q = (r, i)" by (cases "parse_response response q")
  with parse_response_improvements[of response q] have "i \<noteq> []" by simp
  with Returns p show ?thesis by (simp add: rewrite_query_def)
qed

lemma strip_Nil: "strip [] = []"
  by (simp add: strip_def)

lemma strip_decompose:
  "dropWhile is_space s = strip s @ rev (takeWhile is_space (rev (dropWhile is_space s)))"
proof -
  let ?a = "dropWhile is_space s"
  have "strip s @ rev (takeWhile is_space (rev ?a)) =
        rev (takeWhile is_space (rev ?a) @ dropWhile is_space (rev ?a))"
    by (simp only: strip_def rev_append)
  also have "\<dots> = rev (rev ?a)" by (simp only: takeWhile_dropWhile_id)
  also have "\<dots> = ?a" by (rule rev_rev_ident)
  finally show ?thesis by (rule sym)
qed

lemma strip_no_leading: "strip s \<noteq> [] \<Longrightarrow> \<not> is_space (hd (strip s))"
proof -
  let ?a = "dropWhile is_space s"
  assume ne: "strip s \<noteq> []"
  from ne strip_decompose[of s] have "hd ?a = hd (strip s)" by (metis hd_append2)
  moreover from ne strip_decompose[of s] have "?a \<noteq> []" by (metis append_is_Nil_conv)
  then have "\<not> is_space (hd ?a)" by (rule hd_dropWhile)
  ultimately show ?thesis by simp
qed

lemma strip_idem: "strip (strip s) = strip s"
proof (cases "strip s = []")
  case True
  then show ?thesis by (simp add: strip_Nil)
next
  case False
  then have "\<not> is_space (hd (strip s))" by (rule strip_no_leading)
  with False have "dropWhile is_space (strip s) = strip s"
    by (cases "strip s") auto
  moreover have "dropWhile is_space (rev (strip s)) = rev (strip s)"
    by (simp add: strip_def)
  ultimately show ?thesis
    by (metis rev_rev_ident strip_def)
qed

lemma parse_line_rewritten:
  assumes "fst st = original \<or> extracted (fst st)"
  shows "fst (parse_line raw st) = original \<or> extracted (fst (parse_line raw st))"
proof -
  obtain r i c where st: "st = (r, i, c)" by (cases st)
  have l: "strip raw \<noteq> [] \<Longrightarrow> \<not> prefix ''['' (strip raw) \<Longrightarrow> extracted (strip raw)"
    by (simp add: extracted_def strip_idem)
  have q: "strip (after_first_colon (strip raw)) \<noteq> [] \<Longrightarrow>
      \<not> prefix ''['' (strip (after_first_colon (strip raw))) \<Longrightarrow>
      extracted (strip (after_first_colon (strip raw)))"
    by (simp add: extracted_def strip_idem)
  from assms l q show ?thesis
    unfolding st parse_line_def Let_def by (simp split: if_splits)
qed

lemma fold_parse_line_rewritten:
  "fst st = original \<or> extracted (fst st) \<Longrightarrow>
   fst (fold parse_line ls st) = original \<or> extracted (fst (fold parse_line ls st))"
  by (induction ls arbitrary: st) (simp_all add: parse_line_rewritten)

lemma parse_response_rewritten:
  assumes "strip original \<noteq> []" "\<not> (prefix ''['' original \<and> suffix '']'' original)"
  shows "fst (parse_response response original) \<noteq> [] \<and>
         \<not> (prefix ''['' (fst (parse_response response original)) \<and>
            suffix '']'' (fst (parse_response response original)))"
proof (cases response)
  case None
  with assms show ?thesis by (auto simp: parse_response_def strip_Nil)
next
  case (Some reply)
  let ?st = "fold parse_line (split_char CHR ''\<newline>'' (strip reply)) (original, [], NoSection)"
  obtain r i c where st: "?st = (r, i, c)" by (cases ?st)
  have "fst ?st = original \<or> extracted (fst ?st)"
    by (rule fold_parse_line_rewritten) simp
  with st have r: "r = original \<or> extracted r" by simp
  from assms(1) have one: "original \<noteq> []" using strip_Nil by auto
  let ?res = "if prefix ''['' (strip r) \<and> suffix '']'' (strip r) then original else strip r"
  have res: "fst (parse_response response original) = ?res"
    using Some st by (simp add: parse_response_def Let_def)
  from r have "?res \<noteq> [] \<and> \<not> (prefix ''['' ?res \<and> suffix '']'' ?res)"
  proof
    assume "r = original"
    with assms one show ?thesis by auto
  next
    assume "extracted r"
    then show ?thesis by (auto simp: extracted_def)
  qed
  with res show ?thesis by simp
qed

lemma rewrite_query_Returns:
  "simple_chat w [(''user'', QUERY_REWRITER_PROMPT w q)] = Returns response \<Longrightarrow>
   rewritten_query (rewrite_query w q) = fst (parse_response response q)"
  by (simp add: rewrite_query_def split: prod.splits)

lemma simple_enhance_query_cases:
  "simple_enhance_query q = q \<or>
   simple_enhance_query q = q @ '' in Islamic perspective according to Quran and Sunnah''"
  by (simp add: simple_enhance_query_def Let_def)

text \<open>
  Claim C7, as amended. For an original query that is not blank and is not itself a
  bracketed string, the rewritten query is neither empty nor a bracketed string, whatever
  the chat backend does. When parsing fails (the reply has no content, so that
  \<^verbatim>\<open>response.strip()\<close> raises inside \<^verbatim>\<open>_parse_response\<close>), the rewritten query is the original.
\<close>

theorem rewritten_query_usable:
  "(strip q \<noteq> [] \<and> \<not> (prefix ''['' q \<and> suffix '']'' q) \<longrightarrow>
      rewritten_query (rewrite_query w q) \<noteq> [] \<and>
      \<not> (prefix ''['' (rewritten_query (rewrite_query w q)) \<and>
         suffix '']'' (rewritten_query (rewrite_query w q)))) \<and>
   (simple_chat w [(''user'', QUERY_REWRITER_PROMPT w q)] = Returns None \<longrightarrow>
      rewritten_query (rewrite_query w q) = q) \<and>
   fst (parse_response None q) = q"
proof (intro conjI impI)
  assume a: "strip q \<noteq> [] \<and> \<not> (prefix ''['' q \<and> suffix '']'' q)"
  then have q: "q \<noteq> []" using strip_Nil by auto
  show "rewritten_query (rewrite_query w q) \<noteq> []"
  proof (cases "simple_chat w [(''user'', QUERY_REWRITER_PROMPT w q)]")
    case (Raises e)
    with q simple_enhance_query_cases[of q] show ?thesis
      by (auto simp: rewrite_query_def)
  next
    case (Returns response)
    with parse_response_rewritten[of q response] a show ?thesis
      by (simp add: rewrite_query_Returns)
  qed
  show "\<not> (prefix ''['' (rewritten_query (rewrite_query w q)) \<and>
         suffix '']'' (rewritten_query (rewrite_query w q)))"
  proof (cases "simple_chat w [(''user'', QUERY_REWRITER_PROMPT w q)]")
    case (Raises e)
    with a simple_enhance_query_cases[of q] show ?thesis
      by (auto simp: rewrite_query_def suffix_def)
  next
    case (Returns response)
    with parse_response_rewritten[of q response] a show ?thesis
      by (simp add: rewrite_query_Returns)
  qed
next
  assume "simple_chat w [(''user'', QUERY_REWRITER_PROMPT w q)] = Returns None"
  then show "rewritten_query (rewrite_query w q) = q"
    by (simp add: rewrite_query_def parse_response_def)
next
  show "fst (parse_response None q) = q" by (simp add: parse_response_def)
qed

theorem rewritten_query_usable_witness:
  "strip ''What breaks a fast?'' \<noteq> [] \<and>
   rewritten_query (rewrite_query
     (scripted_backends (Returns (Some ''1. Rewritten Query: What invalidates the fast?\<newline>2. Improvements Made:\<newline>- clearer wording'')))
     ''What breaks a fast?'') = ''What invalidates the fast?'' \<and>
   rewritten_query (rewrite_query
     (scripted_backends (Returns (Some ''1. Rewritten Query: What invalidates the fast?\<newline>2. Improvements Made:\<newline>- clearer wording'')))
     ''What breaks a fast?'') \<noteq> [] \<and>
   rewritten_query (rewrite_query (scripted_backends (Returns None)) ''What breaks a fast?'') =
     ''What breaks a fast?''"
proof -
  let ?w = "scripted_backends (Returns (Some ''1. Rewritten Query: What invalidates the fast?\<newline>2. Improvements Made:\<newline>- clearer wording''))"
  let ?n = "scripted_backends (Returns None)"
  let ?q = "''What breaks a fast?''"
  have h: "strip ?q \<noteq> [] \<and> \<not> (prefix ''['' ?q \<and> suffix '']'' ?q)"
    by (simp add: strip_def is_space_def)
  have e: "rewritten_query (rewrite_query ?w ?q) = ''What invalidates the fast?''"
    by (simp add: rewrite_query_def scripted_backends_def parse_response_def parse_line_def
        strip_def is_space_def Let_def sublist_code after_first_colon_def)
  have n: "simple_chat ?n [(''user'', QUERY_REWRITER_PROMPT ?n ?q)] = Returns None"
    by (simp add: scripted_backends_def)
  from rewritten_query_usable[of ?q ?w] h have "rewritten_query (rewrite_query ?w ?q) \<noteq> []"
    by blast
  moreover from rewritten_query_usable[of ?q ?n] n have "rewritten_query (rewrite_query ?n ?q) = ?q"
    by blast
  ultimately show ?thesis using h e by simp
qed

text \<open>
  With no rewritten query in the reply the result is the original query itself: empty for
  the empty query, bracketed for a bracketed one.
\<close>

theorem rewritten_query_counterexample:
  "rewritten_query (rewrite_query (scripted_backends (Returns (Some ''Sorry''))) []) = [] \<and>
   rewritten_query (rewrite_query (scripted_backends (Returns (Some ''Sorry''))) ''[x]'') = ''[x]'' \<and>
   prefix ''['' ''[x]'' \<and> suffix '']'' ''[x]''"
  by (simp add: rewrite_query_def scripted_backends_def parse_response_def parse_line_def
      strip_def is_space_def Let_def sublist_code suffix_def)

text \<open>
  When no line of the reply names the section \<^verbatim>\<open>Rewritten Query:\<close>, nothing is extracted and
  the result is the original query trimmed, or the original query itself when its trimmed
  form is bracketed.
\<close>

lemma header_prefix: "prefix ''1. Rewritten Query:'' line \<Longrightarrow> sublist ''Rewritten Query:'' line"
proof -
  assume "prefix ''1. Rewritten Query:'' line"
  then obtain r where "line = ''1. '' @ ''Rewritten Query:'' @ r" by (auto simp: prefix_def)
  then show ?thesis unfolding sublist_def by blast
qed

lemma parse_line_no_header:
  assumes "\<not> sublist ''Rewritten Query:'' (strip raw)" "snd (snd st) \<noteq> QuerySection"
  shows "fst (parse_line raw st) = fst st \<and> snd (snd (parse_line raw st)) \<noteq> QuerySection"
proof -
  obtain r i c where st: "st = (r, i, c)" by (cases st)
  from assms(1) have "\<not> prefix ''1. Rewritten Query:'' (strip raw)"
    using header_prefix by blast
  with assms show ?thesis
    unfolding st parse_line_def Let_def by simp
qed

lemma fold_parse_line_no_header:
  "list_all (\<lambda>raw. \<not> sublist ''Rewritten Query:'' (strip raw)) ls \<Longrightarrow>
   snd (snd st) \<noteq> QuerySection \<Longrightarrow>
   fst (fold parse_line ls st) = fst st"
proof (induction ls arbitrary: st)
  case Nil
  then show ?case by simp
next
  case (Cons raw ls)
  then have "fst (parse_line raw st) = fst st \<and> snd (snd (parse_line raw st)) \<noteq> QuerySection"
    by (intro parse_line_no_header) simp_all
  with Cons show ?case by simp
qed

lemma parse_response_no_header:
  assumes "list_all (\<lambda>raw. \<not> sublist ''Rewritten Query:'' (strip raw))
             (split_char CHR ''\<newline>'' (strip reply))"
  shows "fst (parse_response (Some reply) original) =
     (if prefix ''['' (strip original) \<and> suffix '']'' (strip original)
      then original else strip original)"
proof -
  let ?st = "fold parse_line (split_char CHR ''\<newline>'' (strip reply)) (original, [], NoSection)"
  have "fst ?st = original"
    using fold_parse_line_no_header[OF assms, of "(original, [], NoSection)"] by simp
  then show ?thesis
    by (cases ?st) (simp add: parse_response_def Let_def)
qed

lemma rewritten_query_trimmed_example:
  "rewritten_query (rewrite_query (scripted_backends (Returns (Some ''Sorry''))) '' hi '') = ''hi''"
  by (simp add: rewrite_query_def scripted_backends_def parse_response_def parse_line_def
      strip_def is_space_def Let_def sublist_code)

section \<open>The planner\<close>

lemma fold_append_each: "fold (\<lambda>m acc. acc @ [f m]) ms acc = acc @ map f ms"
  by (induction ms arbitrary: acc) simp_all

lemma parse_tool_invocations_findall:
  "parse_tool_invocations (Some response) =
     map (\<lambda>m. \<lparr>tool = ''RAG'', query = strip m\<rparr>)
       (findall ''<RAG><query>'' ''</query></RAG>'' response) @
     map (\<lambda>m. \<lparr>tool = ''InternetSearch'', query = strip m\<rparr>)
       (findall ''<InternetSearch><search_query>'' ''</search_query></InternetSearch>'' response)"
  by (simp add: parse_tool_invocations_def Let_def fold_append_each)

text \<open>
  The scanning function \<open>findall\<close> returns the captures in their order of appearance, and
  these are determined by the text.
\<close>

lemma split_at_Some:
  "split_at pat s = Some (a, b) \<Longrightarrow>
   s = a @ pat @ b \<and> (\<forall>a' b'. s = a' @ pat @ b' \<longrightarrow> length a \<le> length a')"
proof (induction s arbitrary: a)
  case Nil
  then show ?case by (auto split: if_splits)
next
  case (Cons c cs)
  show ?case
  proof (cases "prefix pat (c # cs)")
    case True
    with Cons.prems have "a = []" "b = drop (length pat) (c # cs)" by simp_all
    moreover from True have "c # cs = pat @ drop (length pat) (c # cs)"
      by (auto simp: prefix_def)
    ultimately show ?thesis by simp
  next
    case False
    with Cons.prems obtain a0 where s: "split_at pat cs = Some (a0, b)" and a: "a = c # a0"
      by (auto split: option.splits)
    from Cons.IH[OF s] have eq: "cs = a0 @ pat @ b"
      and least: "\<And>a' b'. cs = a' @ pat @ b' \<Longrightarrow> length a0 \<le> length a'" by blast+
    have "length a \<le> length a'" if d: "c # cs = a' @ pat @ b'" for a' b'
    proof (cases a')
      case Nil
      with d have "prefix pat (c # cs)" by (simp add: prefix_def)
      with False show ?thesis by simp
    next
      case (Cons x a'')
      with d have "cs = a'' @ pat @ b'" by simp
      from least[OF this] a Cons show ?thesis by simp
    qed
    with eq a show ?thesis by simp
  qed
qed

lemma split_at_None:
  "split_at pat s = None \<Longrightarrow> s \<noteq> a @ pat @ b"
proof (induction s arbitrary: a)
  case Nil
  then show ?case by (auto split: if_splits)
next
  case (Cons c cs)
  then have np: "\<not> prefix pat (c # cs)" and n: "split_at pat cs = None"
    by (auto split: if_splits option.splits)
  show ?case
  proof (cases a)
    case Nil
    with np show ?thesis by (auto simp: prefix_def)
  next
    case (Cons x a')
    with Cons.IH[OF n, of a'] show ?thesis by auto
  qed
qed

text \<open>No match starts at the first character.\<close>

lemma no_match_at_start:
  assumes "opn \<noteq> []"
    and "\<not> (prefix opn (c # cs) \<and> split_at cls (drop (length opn) (c # cs)) \<noteq> None)"
  shows "c # cs \<noteq> opn @ cap @ cls @ rest"
proof
  assume d: "c # cs = opn @ cap @ cls @ rest"
  then have "prefix opn (c # cs)" by (simp add: prefix_def)
  moreover from d have "drop (length opn) (c # cs) = cap @ cls @ rest" by simp
  moreover have "split_at cls (cap @ cls @ rest) \<noteq> None"
    using split_at_None by blast
  ultimately have "split_at cls (drop (length opn) (c # cs)) \<noteq> None"
    by simp
  moreover note \<open>prefix opn (c # cs)\<close>
  ultimately show False using assms(2) by simp
qed

lemma first_match_Cons:
  assumes "\<And>cap rest. c # cs \<noteq> opn @ cap @ cls @ rest"
    and "first_match opn cls cs pre cap rest"
  shows "first_match opn cls (c # cs) (c # pre) cap rest"
  unfolding first_match_def
proof (intro conjI allI impI)
  from assms(2) show "c # cs = (c # pre) @ opn @ cap @ cls @ rest"
    by (simp add: first_match_def)
next
  fix pre' cap' rest'
  assume d: "c # cs = pre' @ opn @ cap' @ cls @ rest'"
  show "length (c # pre) < length pre' \<or> (length pre' = length (c # pre) \<and> length cap \<le> length cap')"
  proof (cases pre')
    case Nil
    with d assms(1) show ?thesis by simp
  next
    case (Cons x q)
    with d have "cs = q @ opn @ cap' @ cls @ rest'" by simp
    with assms(2) have "length pre < length q \<or> (length q = length pre \<and> length cap \<le> length cap')"
      unfolding first_match_def by blast
    with Cons show ?thesis by auto
  qed
qed

lemma captures_in_order_Cons:
  assumes "\<And>cap rest. c # cs \<noteq> opn @ cap @ cls @ rest"
    and "captures_in_order opn cls cs caps"
  shows "captures_in_order opn cls (c # cs) caps"
proof -
  from assms(2) consider
      (none) "caps = []" "\<forall>pre cap rest. cs \<noteq> pre @ opn @ cap @ cls @ rest"
    | (some) pre cap rest caps' where "caps = cap # caps'" "first_match opn cls cs pre cap rest"
        "captures_in_order opn cls rest caps'"
    by (auto elim: captures_in_order.cases)
  then show ?thesis
  proof cases
    case none
    have "c # cs \<noteq> pre @ opn @ cap @ cls @ rest" for pre cap rest
    proof (cases pre)
      case Nil
      with assms(1) show ?thesis by simp
    next
      case (Cons x q)
      with none(2) show ?thesis by auto
    qed
    with none(1) show ?thesis by (auto intro: captures_in_order.nothing)
  next
    case some
    from first_match_Cons[OF assms(1) some(2)] some(1,3) show ?thesis
      by (auto intro: captures_in_order.found)
  qed
qed

lemma captures_in_order_findall:
  assumes "opn \<noteq> []"
  shows "captures_in_order opn cls s (findall opn cls s)"
  using assms
proof (induction opn cls s rule: findall.induct)
  case (1 opn cls)
  then show ?case by (auto intro: captures_in_order.nothing)
next
  case (2 opn cls c cs)
  note ne = \<open>opn \<noteq> []\<close>
  show ?case
  proof (cases "prefix opn (c # cs) \<and> split_at cls (drop (length opn) (c # cs)) \<noteq> None")
    case True
    then obtain cap rest where s: "split_at cls (drop (length opn) (c # cs)) = Some (cap, rest)"
      by auto
    from split_at_Some[OF s] have eq: "drop (length opn) (c # cs) = cap @ cls @ rest"
      and least: "\<And>a' b'. drop (length opn) (c # cs) = a' @ cls @ b' \<Longrightarrow> length cap \<le> length a'"
      by blast+
    from True have whole: "c # cs = opn @ drop (length opn) (c # cs)"
      by (auto simp: prefix_def)
    have "first_match opn cls (c # cs) [] cap rest"
      unfolding first_match_def
    proof (intro conjI allI impI)
      from whole eq show "c # cs = [] @ opn @ cap @ cls @ rest" by simp
    next
      fix pre' cap' rest'
      assume d: "c # cs = pre' @ opn @ cap' @ cls @ rest'"
      show "length [] < length pre' \<or> (length pre' = length [] \<and> length cap \<le> length cap')"
      proof (cases pre')
        case Nil
        with d have "drop (length opn) (c # cs) = cap' @ cls @ rest'" by simp
        from least[OF this] Nil show ?thesis by simp
      next
        case Cons
        then show ?thesis by simp
      qed
    qed
    moreover from True ne have "opn \<noteq> [] \<and> prefix opn (c # cs)" by simp
    from "2.IH"(2)[OF this s] ne have "captures_in_order opn cls rest (findall opn cls rest)"
      by simp
    ultimately have "captures_in_order opn cls (c # cs) (cap # findall opn cls rest)"
      by (rule captures_in_order.found)
    with True s ne show ?thesis by simp
  next
    case False
    then have f: "findall opn cls (c # cs) = findall opn cls cs"
      by (auto split: option.splits)
    have ih: "captures_in_order opn cls cs (findall opn cls cs)"
    proof (cases "prefix opn (c # cs)")
      case True
      with False have "split_at cls (drop (length opn) (c # cs)) = None"
        by (cases "split_at cls (drop (length opn) (c # cs))") auto
      with True ne "2.IH"(1) show ?thesis by simp
    next
      case False
      with ne "2.IH"(3) show ?thesis by simp
    qed
    from no_match_at_start[OF ne False] have "\<And>cap rest. c # cs \<noteq> opn @ cap @ cls @ rest" .
    from captures_in_order_Cons[OF this ih] f show ?thesis by simp
  qed
qed

lemma first_match_unique:
  assumes "first_match opn cls s pre cap rest" "first_match opn cls s pre' cap' rest'"
  shows "pre = pre' \<and> cap = cap' \<and> rest = rest'"
proof -
  from assms have d: "s = pre @ opn @ cap @ cls @ rest" "s = pre' @ opn @ cap' @ cls @ rest'"
    by (simp_all add: first_match_def)
  from assms(1) d(2) have "length pre < length pre' \<or> (length pre' = length pre \<and> length cap \<le> length cap')"
    unfolding first_match_def by blast
  moreover from assms(2) d(1) have "length pre' < length pre \<or> (length pre = length pre' \<and> length cap' \<le> length cap)"
    unfolding first_match_def by blast
  ultimately have l: "length pre = length pre'" "length cap = length cap'" by auto
  from d have "pre @ opn @ cap @ cls @ rest = pre' @ opn @ cap' @ cls @ rest'" by simp
  with l(1) have "pre = pre'" "cap @ cls @ rest = cap' @ cls @ rest'" by simp_all
  with l(2) show ?thesis by simp
qed

lemma captures_in_order_unique:
  "captures_in_order opn cls s caps \<Longrightarrow> captures_in_order opn cls s caps' \<Longrightarrow> caps = caps'"
proof (induction arbitrary: caps' rule: captures_in_order.induct)
  case (nothing s)
  from nothing.prems consider
      (none) "caps' = []"
    | (some) pre' cap' rest' caps'' where "caps' = cap' # caps''"
        "first_match opn cls s pre' cap' rest'"
    by (auto elim: captures_in_order.cases)
  then show ?case
  proof cases
    case none
    then show ?thesis by simp
  next
    case some
    from some(2) have "s = pre' @ opn @ cap' @ cls @ rest'" by (simp add: first_match_def)
    with nothing.hyps show ?thesis by blast
  qed
next
  case (found s pre cap rest caps)
  from found.prems consider
      (none) "caps' = []" "\<forall>pre cap rest. s \<noteq> pre @ opn @ cap @ cls @ rest"
    | (some) pre' cap' rest' caps'' where "caps' = cap' # caps''"
        "first_match opn cls s pre' cap' rest'" "captures_in_order opn cls rest' caps''"
    by (auto elim: captures_in_order.cases)
  then show ?case
  proof cases
    case none
    with found.hyps(1) show ?thesis by (auto simp: first_match_def)
  next
    case some
    from first_match_unique[OF found.hyps(1) some(2)] have "cap = cap'" "rest = rest'" by simp_all
    with some found.IH show ?thesis by simp
  qed
qed

text \<open>
  Claim C5. For every reply of the planner, the RAG pattern and the InternetSearch pattern
  each have a list of captures in order of appearance (leftmost match first, lazy group,
  matches not overlapping), and whenever \<open>rs\<close> and \<open>ws\<close> are these lists, the invocations
  extracted from the reply are the RAG invocations for \<open>rs\<close>, in that order, followed by the
  InternetSearch invocations for \<open>ws\<close>, in that order, every captured query trimmed. The two
  passes are independent: a search block that stands before a RAG block in the reply still
  comes after it in the result.
\<close>

theorem invocations_in_order_of_appearance:
  "(\<exists>rs ws.
      captures_in_order ''<RAG><query>'' ''</query></RAG>'' response rs \<and>
      captures_in_order ''<InternetSearch><search_query>'' ''</search_query></InternetSearch>''
        response ws) \<and>
   (captures_in_order ''<RAG><query>'' ''</query></RAG>'' response rs \<and>
    captures_in_order ''<InternetSearch><search_query>'' ''</search_query></InternetSearch>''
      response ws \<longrightarrow>
    parse_tool_invocations (Some response) =
      map (\<lambda>m. \<lparr>tool = ''RAG'', query = strip m\<rparr>) rs @
      map (\<lambda>m. \<lparr>tool = ''InternetSearch'', query = strip m\<rparr>) ws)"
proof (intro conjI impI)
  let ?R = "findall ''<RAG><query>'' ''</query></RAG>'' response"
  let ?W = "findall ''<InternetSearch><search_query>'' ''</search_query></InternetSearch>'' response"
  have r: "captures_in_order ''<RAG><query>'' ''</query></RAG>'' response ?R"
    by (rule captures_in_order_findall) simp
  have w: "captures_in_order ''<InternetSearch><search_query>'' ''</search_query></InternetSearch>''
      response ?W"
    by (rule captures_in_order_findall) simp
  from r w show "\<exists>rs ws.
      captures_in_order ''<RAG><query>'' ''</query></RAG>'' response rs \<and>
      captures_in_order ''<InternetSearch><search_query>'' ''</search_query></InternetSearch>''
        response ws"
    by blast
  assume a: "captures_in_order ''<RAG><query>'' ''</query></RAG>'' response rs \<and>
    captures_in_order ''<InternetSearch><search_query>'' ''</search_query></InternetSearch>''
      response ws"
  with r w have "rs = ?R" "ws = ?W"
    using captures_in_order_unique by blast+
  then show "parse_tool_invocations (Some response) =
      map (\<lambda>m. \<lparr>tool = ''RAG'', query = strip m\<rparr>) rs @
      map (\<lambda>m. \<lparr>tool = ''InternetSearch'', query = strip m\<rparr>) ws"
    by (simp only: parse_tool_invocations_findall)
qed

theorem invocations_in_order_of_appearance_witness:
  "captures_in_order ''<RAG><query>'' ''</query></RAG>''
     ''<InternetSearch><search_query> w1 </search_query></InternetSearch> <RAG><query>r1</query></RAG><RAG><query>\<newline>r2</query></RAG>''
     [''r1'', ''\<newline>r2''] \<and>
   captures_in_order ''<InternetSearch><search_query>'' ''</search_query></InternetSearch>''
     ''<InternetSearch><search_query> w1 </search_query></InternetSearch> <RAG><query>r1</query></RAG><RAG><query>\<newline>r2</query></RAG>''
     ['' w1 ''] \<and>
   parse_tool_invocations
     (Some ''<InternetSearch><search_query> w1 </search_query></InternetSearch> <RAG><query>r1</query></RAG><RAG><query>\<newline>r2</query></RAG>'') =
   [\<lparr>tool = ''RAG'', query = ''r1''\<rparr>, \<lparr>tool = ''RAG'', query = ''r2''\<rparr>,
    \<lparr>tool = ''InternetSearch'', query = ''w1''\<rparr>]"
proof -
  let ?T = "''<InternetSearch><search_query> w1 </search_query></InternetSearch> <RAG><query>r1</query></RAG><RAG><query>\<newline>r2</query></RAG>''"
  have "captures_in_order ''<RAG><query>'' ''</query></RAG>'' ?T
          (findall ''<RAG><query>'' ''</query></RAG>'' ?T)"
    by (rule captures_in_order_findall) simp
  moreover have "findall ''<RAG><query>'' ''</query></RAG>'' ?T = [''r1'', ''\<newline>r2'']"
    by simp
  ultimately have r: "captures_in_order ''<RAG><query>'' ''</query></RAG>'' ?T [''r1'', ''\<newline>r2'']"
    by simp
  have "captures_in_order ''<InternetSearch><search_query>'' ''</search_query></InternetSearch>'' ?T
          (findall ''<InternetSearch><search_query>'' ''</search_query></InternetSearch>'' ?T)"
    by (rule captures_in_order_findall) simp
  moreover have "findall ''<InternetSearch><search_query>'' ''</search_query></InternetSearch>'' ?T = ['' w1 '']"
    by simp
  ultimately have w: "captures_in_order ''<InternetSearch><search_query>''
      ''</search_query></InternetSearch>'' ?T ['' w1 '']"
    by simp
  from invocations_in_order_of_appearance[of ?T "[''r1'', ''\<newline>r2'']" "['' w1 '']"] r w
  have "parse_tool_invocations (Some ?T) =
      map (\<lambda>m. \<lparr>tool = ''RAG'', query = strip m\<rparr>) [''r1'', ''\<newline>r2''] @
      map (\<lambda>m. \<lparr>tool = ''InternetSearch'', query = strip m\<rparr>) ['' w1 '']"
    by blast
  then have "parse_tool_invocations (Some ?T) =
      [\<lparr>tool = ''RAG'', query = ''r1''\<rparr>, \<lparr>tool = ''RAG'', query = ''r2''\<rparr>,
       \<lparr>tool = ''InternetSearch'', query = ''w1''\<rparr>]"
    by (simp add: strip_def is_space_def)
  with r w show ?thesis by blast
qed

text \<open>
  On a reply made of such blocks, in any order and with prose between them, the result is
  the RAG queries in their order followed by the search queries in their order.
\<close>

lemma findall_skip_plain:
  "opn \<noteq> [] \<Longrightarrow> hd opn \<notin> set pre \<Longrightarrow> findall opn cls (pre @ s) = findall opn cls s"
proof (induction pre)
  case Nil
  then show ?case by simp
next
  case (Cons c pre)
  then have "\<not> prefix opn (c # pre @ s)" by (cases opn) auto
  with Cons show ?case by simp
qed

lemma split_at_first:
  "cls \<noteq> [] \<Longrightarrow> hd cls \<notin> set cap \<Longrightarrow> split_at cls (cap @ cls @ rest) = Some (cap, rest)"
proof (induction cap)
  case Nil
  then show ?case by (cases cls) auto
next
  case (Cons c cap)
  then have "\<not> prefix cls (c # cap @ cls @ rest)" by (cases cls) auto
  with Cons show ?case by simp
qed

lemma findall_match:
  assumes "opn \<noteq> []" "cls \<noteq> []" "hd cls \<notin> set cap"
  shows "findall opn cls (opn @ cap @ cls @ rest) = cap # findall opn cls rest"
proof -
  from assms(1) obtain c cs where opn: "opn = c # cs" by (cases opn) auto
  from assms(2,3) have "split_at cls (cap @ cls @ rest) = Some (cap, rest)"
    by (rule split_at_first)
  then show ?thesis by (simp add: opn)
qed

lemma findall_RAG_block:
  assumes "CHR ''<'' \<notin> set q"
  shows "findall ''<RAG><query>'' ''</query></RAG>'' (''<RAG><query>'' @ q @ ''</query></RAG>'' @ s) =
           q # findall ''<RAG><query>'' ''</query></RAG>'' s"
    and "findall ''<InternetSearch><search_query>'' ''</search_query></InternetSearch>''
           (''<RAG><query>'' @ q @ ''</query></RAG>'' @ s) =
         findall ''<InternetSearch><search_query>'' ''</search_query></InternetSearch>'' s"
proof -
  show "findall ''<RAG><query>'' ''</query></RAG>'' (''<RAG><query>'' @ q @ ''</query></RAG>'' @ s) =
           q # findall ''<RAG><query>'' ''</query></RAG>'' s"
    using assms by (intro findall_match) simp_all
  have "findall ''<InternetSearch><search_query>'' ''</search_query></InternetSearch>''
           (''<RAG><query>'' @ q @ ''</query></RAG>'' @ s) =
        findall ''<InternetSearch><search_query>'' ''</search_query></InternetSearch>''
           (q @ ''</query></RAG>'' @ s)"
    by simp
  also have "\<dots> = findall ''<InternetSearch><search_query>'' ''</search_query></InternetSearch>''
           (''</query></RAG>'' @ s)"
    using assms by (intro findall_skip_plain) simp_all
  also have "\<dots> = findall ''<InternetSearch><search_query>'' ''</search_query></InternetSearch>'' s"
    by simp
  finally show "findall ''<InternetSearch><search_query>'' ''</search_query></InternetSearch>''
           (''<RAG><query>'' @ q @ ''</query></RAG>'' @ s) =
         findall ''<InternetSearch><search_query>'' ''</search_query></InternetSearch>'' s" .
qed

lemma findall_search_block:
  assumes "CHR ''<'' \<notin> set q"
  shows "findall ''<InternetSearch><search_query>'' ''</search_query></InternetSearch>''
           (''<InternetSearch><search_query>'' @ q @ ''</search_query></InternetSearch>'' @ s) =
           q # findall ''<InternetSearch><search_query>'' ''</search_query></InternetSearch>'' s"
    and "findall ''<RAG><query>'' ''</query></RAG>''
           (''<InternetSearch><search_query>'' @ q @ ''</search_query></InternetSearch>'' @ s) =
         findall ''<RAG><query>'' ''</query></RAG>'' s"
proof -
  show "findall ''<InternetSearch><search_query>'' ''</search_query></InternetSearch>''
           (''<InternetSearch><search_query>'' @ q @ ''</search_query></InternetSearch>'' @ s) =
           q # findall ''<InternetSearch><search_query>'' ''</search_query></InternetSearch>'' s"
    using assms by (intro findall_match) simp_all
  have "findall ''<RAG><query>'' ''</query></RAG>''
           (''<InternetSearch><search_query>'' @ q @ ''</search_query></InternetSearch>'' @ s) =
        findall ''<RAG><query>'' ''</query></RAG>'' (q @ ''</search_query></InternetSearch>'' @ s)"
    by simp
  also have "\<dots> = findall ''<RAG><query>'' ''</query></RAG>'' (''</search_query></InternetSearch>'' @ s)"
    using assms by (intro findall_skip_plain) simp_all
  also have "\<dots> = findall ''<RAG><query>'' ''</query></RAG>'' s"
    by simp
  finally show "findall ''<RAG><query>'' ''</query></RAG>''
           (''<InternetSearch><search_query>'' @ q @ ''</search_query></InternetSearch>'' @ s) =
         findall ''<RAG><query>'' ''</query></RAG>'' s" .
qed

lemma findall_render:
  assumes "list_all no_tag_inside bs"
  shows "map (\<lambda>m. \<lparr>tool = ''RAG'', query = strip m\<rparr>)
           (findall ''<RAG><query>'' ''</query></RAG>'' (render bs)) =
         concat (map (\<lambda>b. planned b ''RAG'') bs) \<and>
         map (\<lambda>m. \<lparr>tool = ''InternetSearch'', query = strip m\<rparr>)
           (findall ''<InternetSearch><search_query>'' ''</search_query></InternetSearch>'' (render bs)) =
         concat (map (\<lambda>b. planned b ''InternetSearch'') bs)"
  using assms
proof (induction bs)
  case Nil
  show ?case by simp
next
  case (Cons b bs)
  then have IH:
    "map (\<lambda>m. \<lparr>tool = ''RAG'', query = strip m\<rparr>)
       (findall ''<RAG><query>'' ''</query></RAG>'' (render bs)) =
     concat (map (\<lambda>b. planned b ''RAG'') bs)"
    "map (\<lambda>m. \<lparr>tool = ''InternetSearch'', query = strip m\<rparr>)
       (findall ''<InternetSearch><search_query>'' ''</search_query></InternetSearch>'' (render bs)) =
     concat (map (\<lambda>b. planned b ''InternetSearch'') bs)"
    by simp_all
  show ?case
  proof (cases b)
    case (Prose s)
    with Cons.prems have "CHR ''<'' \<notin> set s" by simp
    then have
      "findall ''<RAG><query>'' ''</query></RAG>'' (s @ render bs) =
       findall ''<RAG><query>'' ''</query></RAG>'' (render bs)"
      "findall ''<InternetSearch><search_query>'' ''</search_query></InternetSearch>'' (s @ render bs) =
       findall ''<InternetSearch><search_query>'' ''</search_query></InternetSearch>'' (render bs)"
      by (simp_all add: findall_skip_plain del: findall.simps)
    with IH show ?thesis
      by (simp add: Prose del: findall.simps)
  next
    case (RAGCall q)
    with Cons.prems have "CHR ''<'' \<notin> set q" by simp
    from findall_RAG_block[OF this, of "render bs"] IH show ?thesis
      unfolding RAGCall render.simps by (simp del: findall.simps)
  next
    case (SearchCall q)
    with Cons.prems have "CHR ''<'' \<notin> set q" by simp
    from findall_search_block[OF this, of "render bs"] IH show ?thesis
      unfolding SearchCall render.simps by (simp del: findall.simps)
  qed
qed

lemma parse_rendered:
  assumes "list_all no_tag_inside bs"
  shows "parse_tool_invocations (Some (render bs)) =
         concat (map (\<lambda>b. planned b ''RAG'') bs) @
         concat (map (\<lambda>b. planned b ''InternetSearch'') bs)"
  using findall_render[OF assms]
  by (simp add: parse_tool_invocations_def Let_def fold_append_each del: findall.simps)

text \<open>A reply that names a search before two retrievals: the retrievals come first.\<close>

lemma parse_interleaved_example:
  "parse_tool_invocations
     (Some ''<InternetSearch><search_query> w1 </search_query></InternetSearch> <RAG><query>r1</query></RAG><RAG><query>\<newline>r2</query></RAG>'') =
   [\<lparr>tool = ''RAG'', query = ''r1''\<rparr>, \<lparr>tool = ''RAG'', query = ''r2''\<rparr>,
    \<lparr>tool = ''InternetSearch'', query = ''w1''\<rparr>]"
  by (simp add: parse_tool_invocations_def Let_def strip_def is_space_def)

lemma parse_tool_invocations_Nil:
  "parse_tool_invocations (Some response) = [] \<longleftrightarrow>
     findall ''<RAG><query>'' ''</query></RAG>'' response = [] \<and>
     findall ''<InternetSearch><search_query>'' ''</search_query></InternetSearch>'' response = []"
  by (simp add: parse_tool_invocations_def Let_def fold_append_each)

lemma replace_tags_Nil: "replace_reference_tags t [''RAG'' \<mapsto> [], ''InternetSearch'' \<mapsto> []] = t"
  by (simp add: replace_reference_tags_def dict_get_def)

lemma process_query_no_invocations:
  assumes "get_tool_invocations w (rewritten_query (rewrite_query w (request_query request)))
             (case use_thinking_mode of Some m \<Rightarrow> m | None \<Rightarrow> self_mode) = []"
  shows "process_query w self_mode request use_thinking_mode start_time end_time =
     \<lparr>final_answer =
        create_fallback_answer (request_query request) ''No tool invocations generated'',
      raw_rag_output = None, raw_web_output = None, intermediate_reasoning = None,
      rewritten_query_result = Some (rewrite_query w (request_query request)),
      processing_time = end_time - start_time\<rparr>"
proof -
  have "agent_process_query w self_mode (rewritten_query (rewrite_query w (request_query request)))
          use_thinking_mode = create_error_result self_mode ''No tool invocations generated''"
    using assms by (simp add: agent_process_query_def Let_def)
  then show ?thesis
    by (simp add: process_query_def process_query_steps_def Let_def create_error_result_def
        create_fallback_answer_def replace_tags_Nil)
qed

text \<open>
  Claim C6. A reply in which neither pattern matches gives the empty list of invocations;
  when the planner's chat call raises, \<^verbatim>\<open>_get_tool_invocations\<close> returns the empty list; and
  on an empty list of invocations the orchestrator answers with the fallback answer for
  the error \<^verbatim>\<open>No tool invocations generated\<close>.
\<close>

theorem no_invocations_give_fallback:
  "(findall ''<RAG><query>'' ''</query></RAG>'' response = [] \<and>
    findall ''<InternetSearch><search_query>'' ''</search_query></InternetSearch>'' response = [] \<longrightarrow>
      parse_tool_invocations (Some response) = []) \<and>
   ((if mode then thinking_chat w (TOOL_USAGE_PROMPT w q) None
     else simple_chat w [(''user'', TOOL_USAGE_PROMPT w q)]) = Raises e \<longrightarrow>
      get_tool_invocations w q mode = []) \<and>
   (get_tool_invocations w (rewritten_query (rewrite_query w (request_query request)))
      (case use_thinking_mode of Some m \<Rightarrow> m | None \<Rightarrow> self_mode) = [] \<longrightarrow>
      final_answer (process_query w self_mode request use_thinking_mode start_time end_time) =
        \<lparr>answer = ''I apologize, but I encountered an error while processing your query: '' @
           ''No tool invocations generated'',
         confidence = 0, methodology = ''Error fallback'',
         answer_references = [''RAG'' \<mapsto> [], ''InternetSearch'' \<mapsto> []]\<rparr>)"
proof (intro conjI impI)
  assume "findall ''<RAG><query>'' ''</query></RAG>'' response = [] \<and>
    findall ''<InternetSearch><search_query>'' ''</search_query></InternetSearch>'' response = []"
  then show "parse_tool_invocations (Some response) = []"
    by (simp add: parse_tool_invocations_Nil)
next
  assume "(if mode then thinking_chat w (TOOL_USAGE_PROMPT w q) None
     else simple_chat w [(''user'', TOOL_USAGE_PROMPT w q)]) = Raises e"
  then show "get_tool_invocations w q mode = []"
    by (simp add: get_tool_invocations_def Let_def)
next
  assume "get_tool_invocations w (rewritten_query (rewrite_query w (request_query request)))
      (case use_thinking_mode of Some m \<Rightarrow> m | None \<Rightarrow> self_mode) = []"
  then show "final_answer (process_query w self_mode request use_thinking_mode start_time end_time) =
        \<lparr>answer = ''I apologize, but I encountered an error while processing your query: '' @
           ''No tool invocations generated'',
         confidence = 0, methodology = ''Error fallback'',
         answer_references = [''RAG'' \<mapsto> [], ''InternetSearch'' \<mapsto> []]\<rparr>"
    by (simp add: process_query_no_invocations create_fallback_answer_def)
qed

theorem no_invocations_give_fallback_witness:
  "parse_tool_invocations (Some ''I cannot help with that.'') = [] \<and>
   get_tool_invocations (scripted_backends (Raises ''timeout'')) ''What breaks a fast?'' True = [] \<and>
   final_answer (process_query (scripted_backends (Returns (Some ''I cannot help with that.'')))
       False example_request None 1 3) =
     \<lparr>answer = ''I apologize, but I encountered an error while processing your query: No tool invocations generated'',
      confidence = 0, methodology = ''Error fallback'',
      answer_references = [''RAG'' \<mapsto> [], ''InternetSearch'' \<mapsto> []]\<rparr>"
proof -
  let ?w = "scripted_backends (Returns (Some ''I cannot help with that.''))"
  let ?d = "scripted_backends (Raises ''timeout'')"
  have f: "findall ''<RAG><query>'' ''</query></RAG>'' ''I cannot help with that.'' = [] \<and>
    findall ''<InternetSearch><search_query>'' ''</search_query></InternetSearch>''
      ''I cannot help with that.'' = []"
    by simp
  note T = no_invocations_give_fallback
  from T[where response = "''I cannot help with that.''"] f
  have p: "parse_tool_invocations (Some ''I cannot help with that.'') = []" by blast
  have "(if True then thinking_chat ?d (TOOL_USAGE_PROMPT ?d ''What breaks a fast?'') None
         else simple_chat ?d [(''user'', TOOL_USAGE_PROMPT ?d ''What breaks a fast?'')]) = Raises ''timeout''"
    by (simp add: scripted_backends_def)
  with T[where mode = True and w = ?d and q = "''What breaks a fast?''" and e = "''timeout''"]
  have g: "get_tool_invocations ?d ''What breaks a fast?'' True = []" by blast
  have "get_tool_invocations ?w (rewritten_query (rewrite_query ?w (request_query example_request)))
      (case None of Some m \<Rightarrow> m | None \<Rightarrow> False) = []"
    using p by (simp add: get_tool_invocations_def scripted_backends_def)
  with T[where w = ?w and request = example_request and use_thinking_mode = None
      and self_mode = False and start_time = 1 and end_time = 3]
  have "final_answer (process_query ?w False example_request None 1 3) =
     \<lparr>answer = ''I apologize, but I encountered an error while processing your query: '' @
        ''No tool invocations generated'',
      confidence = 0, methodology = ''Error fallback'',
      answer_references = [''RAG'' \<mapsto> [], ''InternetSearch'' \<mapsto> []]\<rparr>" by blast
  with p g show ?thesis by simp
qed

section \<open>The chat backend is down\<close>

text \<open>
  Claim C8, as amended. When every call of the chat backend raises, \<^verbatim>\<open>process_query\<close> still
  returns a response: its final answer has confidence 0, the methodology
  \<^verbatim>\<open>Error fallback\<close> and empty reference lists for both kinds. The recorded processing time
  is the second clock reading minus the first: it is positive exactly when the clock has
  advanced between the two readings.
\<close>

theorem chat_backend_down_gives_fallback:
  assumes "\<forall>messages. \<exists>e. simple_chat w messages = Raises e"
    and "\<forall>user_input max_tokens. \<exists>e. thinking_chat w user_input max_tokens = Raises e"
  shows "confidence (final_answer (process_query w self_mode request use_thinking_mode start_time end_time)) = 0 \<and>
     methodology (final_answer (process_query w self_mode request use_thinking_mode start_time end_time)) = ''Error fallback'' \<and>
     answer_references (final_answer (process_query w self_mode request use_thinking_mode start_time end_time)) =
       [''RAG'' \<mapsto> [], ''InternetSearch'' \<mapsto> []] \<and>
     processing_time (process_query w self_mode request use_thinking_mode start_time end_time) =
       end_time - start_time \<and>
     (0 < processing_time (process_query w self_mode request use_thinking_mode start_time end_time)
        \<longleftrightarrow> start_time < end_time)"
proof -
  let ?q = "rewritten_query (rewrite_query w (request_query request))"
  let ?mode = "case use_thinking_mode of Some m \<Rightarrow> m | None \<Rightarrow> self_mode"
  from assms obtain e where
    "(if ?mode then thinking_chat w (TOOL_USAGE_PROMPT w ?q) None
      else simple_chat w [(''user'', TOOL_USAGE_PROMPT w ?q)]) = Raises e"
    by (cases ?mode) (simp_all, metis+)
  then have "get_tool_invocations w ?q ?mode = []"
    by (simp add: get_tool_invocations_def Let_def)
  then show ?thesis
    by (simp add: process_query_no_invocations create_fallback_answer_def)
qed

theorem chat_backend_down_gives_fallback_witness:
  "confidence (final_answer (process_query (scripted_backends (Raises ''timeout'')) False example_request None 1 3)) = 0 \<and>
   methodology (final_answer (process_query (scripted_backends (Raises ''timeout'')) False example_request None 1 3)) = ''Error fallback'' \<and>
   dict_get (answer_references (final_answer (process_query (scripted_backends (Raises ''timeout'')) False example_request None 1 3))) ''RAG'' = [] \<and>
   dict_get (answer_references (final_answer (process_query (scripted_backends (Raises ''timeout'')) False example_request None 1 3))) ''InternetSearch'' = [] \<and>
   processing_time (process_query (scripted_backends (Raises ''timeout'')) False example_request None 1 3) = 2"
proof -
  let ?d = "scripted_backends (Raises ''timeout'')"
  have h1: "\<forall>messages. \<exists>e. simple_chat ?d messages = Raises e"
    by (simp add: scripted_backends_def)
  have h2: "\<forall>user_input max_tokens. \<exists>e. thinking_chat ?d user_input max_tokens = Raises e"
    by (simp add: scripted_backends_def)
  from chat_backend_down_gives_fallback[OF h1 h2, of False example_request None 1 3]
  show ?thesis by (simp add: dict_get_def)
qed

text \<open>Two equal readings of the clock give the processing time 0.\<close>

theorem processing_time_counterexample:
  "simple_chat (scripted_backends (Raises ''timeout'')) [] = Raises ''timeout'' \<and>
   thinking_chat (scripted_backends (Raises ''timeout'')) [] None = Raises ''timeout'' \<and>
   processing_time (process_query (scripted_backends (Raises ''timeout'')) False example_request None 5 5) = 0 \<and>
   \<not> 0 < processing_time (process_query (scripted_backends (Raises ''timeout'')) False example_request None 5 5)"
proof -
  let ?d = "scripted_backends (Raises ''timeout'')"
  have "get_tool_invocations ?d (rewritten_query (rewrite_query ?d (request_query example_request)))
      (case None of Some m \<Rightarrow> m | None \<Rightarrow> False) = []"
    by (simp add: get_tool_invocations_def scripted_backends_def)
  then have "processing_time (process_query ?d False example_request None 5 5) = 5 - 5"
    by (simp add: process_query_no_invocations)
  then show ?thesis by (simp add: scripted_backends_def)
qed

section \<open>Numbering in the synthesis prompt\<close>

text \<open>Within one record the \<open>k\<close>-th line carries the number \<open>k + 1\<close> and the \<open>k\<close>-th origin.\<close>

lemma rag_reference_lines_length: "length (rag_reference_lines i refs) = length refs"
  by (induction refs arbitrary: i) simp_all

lemma rag_reference_lines_nth:
  "k < length refs \<Longrightarrow>
   rag_reference_lines i refs ! k =
     ''<RAG id='' @ str_nat (i + k) @ ''>'' @ source (refs ! k) @ '': '' @
     take 100 (ref_content (refs ! k)) @ ''...</RAG>''"
proof (induction refs arbitrary: i k)
  case Nil
  then show ?case by simp
next
  case (Cons r refs)
  show ?case
  proof (cases k)
    case 0
    then show ?thesis by simp
  next
    case (Suc j)
    with Cons.prems have "j < length refs" by simp
    from Cons.IH[OF this, of "Suc i"] Suc show ?thesis by simp
  qed
qed

lemma web_result_lines_length: "length (web_result_lines i rs) = length rs"
  by (induction rs arbitrary: i) simp_all

lemma web_result_lines_nth:
  "k < length rs \<Longrightarrow>
   web_result_lines i rs ! k =
     ''<Internet id='' @ str_nat (i + k) @ ''>'' @ get_str (rs ! k) ''title'' ''Unknown'' @ '' ('' @
     get_str (rs ! k) ''url'' [] @ ''): '' @ take 100 (get_str (rs ! k) ''content'' []) @
     ''...</Internet>''"
proof (induction rs arbitrary: i k)
  case Nil
  then show ?case by simp
next
  case (Cons r rs)
  show ?case
  proof (cases k)
    case 0
    then show ?thesis by simp
  next
    case (Suc j)
    with Cons.prems have "j < length rs" by simp
    from Cons.IH[OF this, of "Suc i"] Suc show ?thesis by simp
  qed
qed

lemmas prepare_eval = prepare_synthesis_input_from_tool_results_def add_tool_result_def dict_get_def
  get_str_def str_nat.simps digit_def

text \<open>
  Claim C2 does not hold of the code. \<^verbatim>\<open>enumerate(result.references, 1)\<close> and
  \<^verbatim>\<open>enumerate(result.results, 1)\<close> start again at 1 for every record: two retrievals with one
  reference each both get \<^verbatim>\<open><RAG id=1>\<close> and no \<^verbatim>\<open><RAG id=2>\<close> is written, and likewise for
  two searches.
\<close>

theorem RAG_ids_restart_for_each_record:
  "fst (prepare_synthesis_input_from_tool_results ''q'' two_record_batch) =
     ''\<newline>## Islamic Sources Information\<newline>**Query Used:** fasting\<newline>**Content:** X\<newline>\<newline>**Detailed References and Sources:**\<newline><RAG id=1>islamqa: A...</RAG>\<newline>\<newline>\<newline>## Islamic Sources Information\<newline>**Query Used:** travel\<newline>**Content:** Y\<newline>\<newline>**Detailed References and Sources:**\<newline><RAG id=1>sunnah: B...</RAG>\<newline>'' \<and>
   \<not> sublist ''<RAG id=2>'' (fst (prepare_synthesis_input_from_tool_results ''q'' two_record_batch)) \<and>
   fst (prepare_synthesis_input_from_tool_results ''q'' two_search_batch) =
     ''\<newline>## Contemporary (Internet Search) Information\<newline>**Search Query:** fasting\<newline>**Direct Search Answer:** X\<newline>\<newline>**Web Search Results:**\<newline><Internet id=1>T1 (u1): A...</Internet>\<newline>\<newline>\<newline>## Contemporary (Internet Search) Information\<newline>**Search Query:** travel\<newline>**Direct Search Answer:** Y\<newline>\<newline>**Web Search Results:**\<newline><Internet id=1>T2 (u2): B...</Internet>\<newline>''"
proof -
  have a: "fst (prepare_synthesis_input_from_tool_results ''q'' two_record_batch) =
     ''\<newline>## Islamic Sources Information\<newline>**Query Used:** fasting\<newline>**Content:** X\<newline>\<newline>**Detailed References and Sources:**\<newline><RAG id=1>islamqa: A...</RAG>\<newline>\<newline>\<newline>## Islamic Sources Information\<newline>**Query Used:** travel\<newline>**Content:** Y\<newline>\<newline>**Detailed References and Sources:**\<newline><RAG id=1>sunnah: B...</RAG>\<newline>''"
    by (simp add: prepare_eval two_record_batch_def)
  have b: "fst (prepare_synthesis_input_from_tool_results ''q'' two_search_batch) =
     ''\<newline>## Contemporary (Internet Search) Information\<newline>**Search Query:** fasting\<newline>**Direct Search Answer:** X\<newline>\<newline>**Web Search Results:**\<newline><Internet id=1>T1 (u1): A...</Internet>\<newline>\<newline>\<newline>## Contemporary (Internet Search) Information\<newline>**Search Query:** travel\<newline>**Direct Search Answer:** Y\<newline>\<newline>**Web Search Results:**\<newline><Internet id=1>T2 (u2): B...</Internet>\<newline>''"
    by (simp add: prepare_eval two_search_batch_def)
  show ?thesis
    unfolding a b by (simp add: sublist_code)
qed

text \<open>
  Claim C1 does not hold of the code. For a retrieval the origin list is extended by
  \<^verbatim>\<open>sources_used\<close>, the set of the sources, not by the source of each numbered reference:
  with two references of one source the prompt has \<^verbatim>\<open><RAG id=2>\<close> and the list has one
  entry, so \<^verbatim>\<open><RAG id=2>\<close> is never substituted. For two searches the second record's
  \<^verbatim>\<open><Internet id=1>\<close> is substituted by the first record's url.
\<close>

theorem origin_list_drifts_from_tags:
  "from_islamic_rag repeated_source_result \<and>
   fst (prepare_synthesis_input_from_tool_results ''q'' repeated_source_batch) =
     ''\<newline>## Islamic Sources Information\<newline>**Query Used:** fasting\<newline>**Content:** X\<newline>\<newline>**Detailed References and Sources:**\<newline><RAG id=1>islamqa: A...</RAG>\<newline><RAG id=2>islamqa: B...</RAG>\<newline>'' \<and>
   dict_get (snd (prepare_synthesis_input_from_tool_results ''q'' repeated_source_batch)) ''RAG'' =
     [''islamqa''] \<and>
   replace_reference_tags ''As <RAG id=2> says''
     (snd (prepare_synthesis_input_from_tool_results ''q'' repeated_source_batch)) =
     ''As <RAG id=2> says'' \<and>
   dict_get (snd (prepare_synthesis_input_from_tool_results ''q'' two_search_batch)) ''InternetSearch'' =
     [''u1'', ''u2''] \<and>
   replace_reference_tags ''<Internet id=1>T2 (u2)''
     (snd (prepare_synthesis_input_from_tool_results ''q'' two_search_batch)) = ''[u1]T2 (u2)''"
proof -
  have "from_islamic_rag repeated_source_result"
    by (simp add: from_islamic_rag_def repeated_source_result_def validate_islamic_source_def
        authentic_sources_def lower_def lower_char_def sublist_code)
  moreover have "fst (prepare_synthesis_input_from_tool_results ''q'' repeated_source_batch) =
     ''\<newline>## Islamic Sources Information\<newline>**Query Used:** fasting\<newline>**Content:** X\<newline>\<newline>**Detailed References and Sources:**\<newline><RAG id=1>islamqa: A...</RAG>\<newline><RAG id=2>islamqa: B...</RAG>\<newline>''"
    by (simp add: prepare_eval repeated_source_batch_def repeated_source_result_def)
  moreover have "dict_get (snd (prepare_synthesis_input_from_tool_results ''q'' repeated_source_batch)) ''RAG'' =
     [''islamqa'']"
    by (simp add: prepare_eval repeated_source_batch_def repeated_source_result_def)
  moreover have "replace_reference_tags ''As <RAG id=2> says''
     (snd (prepare_synthesis_input_from_tool_results ''q'' repeated_source_batch)) =
     ''As <RAG id=2> says''"
    by (simp add: prepare_eval repeated_source_batch_def repeated_source_result_def
        replace_reference_tags_def opening_tag_def closing_tag_def)
  moreover have "dict_get (snd (prepare_synthesis_input_from_tool_results ''q'' two_search_batch)) ''InternetSearch'' =
     [''u1'', ''u2'']"
    by (simp add: prepare_eval two_search_batch_def)
  moreover have "replace_reference_tags ''<Internet id=1>T2 (u2)''
     (snd (prepare_synthesis_input_from_tool_results ''q'' two_search_batch)) = ''[u1]T2 (u2)''"
    by (simp add: prepare_eval two_search_batch_def replace_reference_tags_def opening_tag_def
        closing_tag_def)
  ultimately show ?thesis by blast
qed

end
